theory Spec2Isabelle
  imports Main
begin

text \<open>
  A model of the agent of \<open>puter-ai\<close>: the risk registry and the tools \<open>edit_file\<close>,
  \<open>list_directory\<close> and \<open>search_files\<close> of \<open>tools.js\<close>, and \<open>handleToolCall\<close>, the
  normalisation of the model's reply and \<open>runAgentLoop\<close> of \<open>agent.js\<close>. The first
  sections follow the source, function by function; the properties come after them.
\<close>

section \<open>JavaScript values and strings\<close>

text \<open>
  The agent is a Node.js program. A JavaScript string is modelled as a \<open>string\<close>
  (a list of 8-bit characters, read as the code units below 256). Tool-call arguments
  are JSON values; the model keeps strings, booleans, \<open>null\<close> and absence, which is
  what the declared parameter schemas of the tools (strings and one boolean) need,
  together with the ill-typed arguments a model may send in their place.
\<close>

datatype jsval = JUndefined | JNull | JBool bool | JStr string

type_synonym args = "string \<Rightarrow> jsval"

text \<open>Truthiness, as \<open>||\<close>, \<open>&&\<close> and \<open>if\<close> test it.\<close>

fun truthy :: "jsval \<Rightarrow> bool" where
  "truthy JUndefined = False"
| "truthy JNull = False"
| "truthy (JBool b) = b"
| "truthy (JStr s) = (s \<noteq> [])"

text \<open>Decimal numerals, as template literals print counts and line numbers.\<close>

fun digit_char :: "nat \<Rightarrow> char" where
  "digit_char n = char_of (of_char (CHR ''0'') + n)"

fun show_nat :: "nat \<Rightarrow> string" where
  "show_nat n = (if n < 10 then [digit_char n] else show_nat (n div 10) @ [digit_char (n mod 10)])"

declare show_nat.simps [simp del]

text \<open>\<open>ToString\<close> of a value, as template literals and string methods apply it.\<close>

fun to_string :: "jsval \<Rightarrow> string" where
  "to_string JUndefined = ''undefined''"
| "to_string JNull = ''null''"
| "to_string (JBool b) = (if b then ''true'' else ''false'')"
| "to_string (JStr s) = s"

text \<open>\<open>s.startsWith(p)\<close>, \<open>s.endsWith(p)\<close> and \<open>s.includes(t)\<close>.\<close>

fun startsWith :: "string \<Rightarrow> string \<Rightarrow> bool" where
  "startsWith s [] = True"
| "startsWith [] (p # ps) = False"
| "startsWith (c # cs) (p # ps) = (c = p \<and> startsWith cs ps)"

definition endsWith :: "string \<Rightarrow> string \<Rightarrow> bool" where
  "endsWith s p = startsWith (rev s) (rev p)"

fun str_includes :: "string \<Rightarrow> string \<Rightarrow> bool" where
  "str_includes [] t = (t = [])"
| "str_includes (c # cs) t = (startsWith (c # cs) t \<or> str_includes cs t)"

text \<open>\<open>s.indexOf(t)\<close>: the least position where \<open>t\<close> occurs; \<open>None\<close> is \<open>-1\<close>.\<close>

fun indexOf :: "string \<Rightarrow> string \<Rightarrow> nat option" where
  "indexOf [] t = (if t = [] then Some 0 else None)"
| "indexOf (c # cs) t =
     (if startsWith (c # cs) t then Some 0 else map_option Suc (indexOf cs t))"

text \<open>
  \<open>s.toLowerCase()\<close> on code units below 256: the ASCII capitals and the Latin-1
  capitals (\<open>0xC0\<close> to \<open>0xDE\<close>, the multiplication sign \<open>0xD7\<close> apart) move
  up by 32. \<open>s.trim()\<close> strips white space and line terminators at both ends; below
  256 these are the code units 9 to 13, 32 and 160.
\<close>

definition lower_char :: "char \<Rightarrow> char" where
  "lower_char c =
     (let n = (of_char c :: nat)
      in if (65 \<le> n \<and> n \<le> 90) \<or> (192 \<le> n \<and> n \<le> 222 \<and> n \<noteq> 215)
         then char_of (n + 32) else c)"

definition toLowerCase :: "string \<Rightarrow> string" where
  "toLowerCase s = map lower_char s"

definition is_space :: "char \<Rightarrow> bool" where
  "is_space c = (let n = (of_char c :: nat) in (9 \<le> n \<and> n \<le> 13) \<or> n = 32 \<or> n = 160)"

definition trim :: "string \<Rightarrow> string" where
  "trim s = rev (dropWhile is_space (rev (dropWhile is_space s)))"

text \<open>\<open>s.split\<close> at line feeds (never empty: the empty string splits into one empty line) and \<open>xs.join(sep)\<close>.\<close>

fun split_lines :: "string \<Rightarrow> string list" where
  "split_lines [] = [[]]"
| "split_lines (c # cs) =
     (if c = CHR 0x0A then [] # split_lines cs
      else (case split_lines cs of l # ls \<Rightarrow> (c # l) # ls | [] \<Rightarrow> [[c]]))"

fun join :: "string \<Rightarrow> string list \<Rightarrow> string" where
  "join sep [] = []"
| "join sep [x] = x"
| "join sep (x # y # ys) = x @ sep @ join sep (y # ys)"

section \<open>Tool registry: risk levels\<close>

text \<open>
  \<open>TOOL_RISK\<close> is an object literal; \<open>handleToolCall\<close> reads it as
  \<open>TOOL_RISK[name] || 'ask'\<close>. A property read on an object literal also finds the
  properties every plain object inherits from \<open>Object.prototype\<close>; their values are
  functions (an object for \<open>__proto__\<close>), all truthy and none of them a string. The
  constructor \<open>Inherited\<close> stands for such a value.
\<close>

datatype risk = Safe | Ask | Danger | Inherited

definition TOOL_RISK :: "(string \<times> risk) list" where
  "TOOL_RISK =
     [(''read_file'', Safe),
      (''list_directory'', Safe),
      (''search_files'', Safe),
      (''get_project_info'', Safe),
      (''write_file'', Ask),
      (''edit_file'', Ask),
      (''run_command'', Danger)]"

definition object_prototype_names :: "string list" where
  "object_prototype_names =
     [''constructor'', ''__defineGetter__'', ''__defineSetter__'', ''hasOwnProperty'',
      ''__lookupGetter__'', ''__lookupSetter__'', ''isPrototypeOf'',
      ''propertyIsEnumerable'', ''toString'', ''valueOf'', ''__proto__'',
      ''toLocaleString'']"

text \<open>\<open>TOOL_RISK[name]\<close>: own properties first, then the prototype; \<open>None\<close> is \<open>undefined\<close>.\<close>

definition tool_risk_get :: "string \<Rightarrow> risk option" where
  "tool_risk_get name =
     (case map_of TOOL_RISK name of
        Some r \<Rightarrow> Some r
      | None \<Rightarrow> if name \<in> set object_prototype_names then Some Inherited else None)"

text \<open>\<open>const risk = TOOL_RISK[name] || 'ask'\<close> (every value found is truthy).\<close>

definition tool_risk :: "string \<Rightarrow> risk" where
  "tool_risk name = (case tool_risk_get name of Some r \<Rightarrow> r | None \<Rightarrow> Ask)"

section \<open>Handling one tool call\<close>

text \<open>
  A tool call as \<open>normalizeToolCalls\<close> produces it: \<open>{id, name, args}\<close>, with
  \<open>args\<close> an object (arguments that parse to something else than an object are
  outside the model).
\<close>

record toolcall =
  tc_id :: string
  tc_name :: string
  tc_args :: args

text \<open>
  What the process does besides computing values is recorded as a log of events, in the
  order of the source's statements. Console output is kept by kind, not by its text:
  the banner naming the tool, the previews of a write or an edit, the permission
  question (asked together with the one line read as its answer), the call of
  \<open>executeTool\<close>, the \<open>console.error\<close> of the catch block; for the loop the model
  call, the assistant's text, the final answer, a provider error, the wait before a
  retry and the max-iterations warning. The lines printed after \<open>executeTool\<close> has
  returned (line counts, command output, \<open>done\<close>) only format its result and are left
  out.
\<close>

datatype event =
    ToolBanner string
  | WritePreview
  | EditPreviewTarget
  | EditPreviewReplacement
  | Prompt risk
  | Executed string
  | ToolError string
  | ModelCall
  | AiText string
  | FinalText string
  | ErrorShown string
  | RetryWait
  | MaxIterWarning nat

text \<open>
  A thrown exception (a rejected promise) is the left summand and carries
  \<open>err.message\<close>. The texts of the platform's own \<open>TypeError\<close>s are indicative.
\<close>

type_synonym 'a result = "string + 'a"

text \<open>
  The conversation history. An assistant turn is either the provider's message object
  pushed as it came, or the canonical object \<open>normalizeAssistantMessage\<close> builds
  (content and OpenAI-style calls with stringified arguments), or a text-only turn; a
  provider reply that is a bare string is pushed as that string.
\<close>

datatype tinput = ArgText string | ArgObject args | ArgNone

record oa_call =
  oa_id :: string
  oa_name :: string
  oa_arguments :: tinput

datatype block = TextBlock string | ToolUseBlock string string tinput | OtherBlock

datatype content = NoContent | TextContent string | BlockContent "block list"

record message =
  content :: content
  tool_calls :: "oa_call list option"

datatype msgval = MNull | MString string | MObject message

datatype response = RNull | RString string | RWrapped message string | RBare message string

datatype hmsg =
    SystemMsg string
  | UserMsg string
  | AssistantSame message
  | AssistantCalls "string option" "(string \<times> string \<times> string) list"
  | AssistantText string
  | RawString string
  | ToolMsg string string

text \<open>
  The state threaded through the loop: the \<open>messages\<close> array, the event log, and the
  world the executor acts on (the file system and the processes it starts).
\<close>

record 'w state =
  messages :: "hmsg list"
  log :: "event list"
  world :: "'w"

text \<open>
  The collaborators the loop is given: the provider's \<open>puter.ai.chat\<close> (a function of
  the number of calls made before and of the history sent; it returns a reply or throws
  an error with a message), the human at the permission prompt (the line typed at the
  \<open>k\<close>-th question), \<open>executeTool\<close> (it returns a text or throws, and changes the
  world), and the built-ins \<open>JSON.parse\<close> and \<open>JSON.stringify\<close>.
\<close>

record 'w env =
  chat :: "nat \<Rightarrow> hmsg list \<Rightarrow> response result"
  human :: "nat \<Rightarrow> string"
  executeTool :: "string \<Rightarrow> args \<Rightarrow> string \<Rightarrow> 'w \<Rightarrow> string result \<times> 'w"
  json_parse :: "string \<Rightarrow> args result"
  json_stringify :: "args \<Rightarrow> string"

definition emit :: "event list \<Rightarrow> 'w state \<Rightarrow> 'w state" where
  "emit evs s = s\<lparr>log := log s @ evs\<rparr>"

fun is_prompt :: "event \<Rightarrow> bool" where
  "is_prompt (Prompt r) = True"
| "is_prompt e = False"

fun is_executed :: "event \<Rightarrow> bool" where
  "is_executed (Executed n) = True"
| "is_executed e = False"

fun is_model_call :: "event \<Rightarrow> bool" where
  "is_model_call ModelCall = True"
| "is_model_call e = False"

fun is_error_shown :: "event \<Rightarrow> bool" where
  "is_error_shown (ErrorShown m) = True"
| "is_error_shown e = False"

text \<open>The events a call adds to the log.\<close>

definition new_events :: "'w state \<Rightarrow> 'w state \<Rightarrow> event list" where
  "new_events s s' = drop (length (log s)) (log s')"

text \<open>
  \<open>askPermission\<close>: the question is shown, one line is read, and the promise resolves
  with \<open>answer.toLowerCase().trim()\<close>.
\<close>

definition askPermission :: "'w env \<Rightarrow> risk \<Rightarrow> 'w state \<Rightarrow> string \<times> 'w state" where
  "askPermission E r s =
     (let answer = human E (length (filter is_prompt (log s)))
      in (trim (toLowerCase answer), emit [Prompt r] s))"

text \<open>
  The previews shown before the question. They throw where the source calls a string
  method on an argument that is not a string: \<open>path.resolve\<close> on a path that is not a
  string, \<open>split\<close> on a truthy content, target or replacement that is not a string
  (for the content in the inner \<open>catch\<close> block as well, whether or not the file could
  be read). The result is what was printed and the message of the exception, if any.
\<close>

fun is_str :: "jsval \<Rightarrow> bool" where
  "is_str (JStr s) = True"
| "is_str v = False"

definition preview :: "string \<Rightarrow> args \<Rightarrow> event list \<times> string option" where
  "preview name a =
     (if name = ''write_file'' \<and> truthy (a ''content'') then
        (if \<not> is_str (a ''path'') then ([], Some ''The paths[1] argument must be of type string'')
         else if \<not> is_str (a ''content'') then ([], Some ''args.content.split is not a function'')
         else ([WritePreview], None))
      else if name = ''edit_file'' \<and> truthy (a ''target'') then
        (if \<not> is_str (a ''target'') then ([], Some ''args.target.split is not a function'')
         else if truthy (a ''replacement'') \<and> \<not> is_str (a ''replacement'')
           then ([EditPreviewTarget], Some ''(args.replacement || ...).split is not a function'')
         else ([EditPreviewTarget, EditPreviewReplacement], None))
      else ([], None))"

text \<open>\<open>(await executeTool(name, args, projectDir)) || '(no output)'\<close>.\<close>

definition run_tool ::
  "'w env \<Rightarrow> string \<Rightarrow> args \<Rightarrow> string \<Rightarrow> 'w state \<Rightarrow> string result \<times> 'w state" where
  "run_tool E name a projectDir s =
     (case executeTool E name a projectDir (world s) of
        (r, w') \<Rightarrow>
          (let s' = (emit [Executed name] s)\<lparr>world := w'\<rparr>
           in case r of
                Inl msg \<Rightarrow> (Inl msg, s')
              | Inr out \<Rightarrow> (Inr (if out = [] then ''(no output)'' else out), s')))"

text \<open>The body of the \<open>try\<close> block of \<open>handleToolCall\<close>.\<close>

definition handleToolCall_try ::
  "'w env \<Rightarrow> toolcall \<Rightarrow> string \<Rightarrow> bool \<Rightarrow> 'w state \<Rightarrow> string result \<times> 'w state" where
  "handleToolCall_try E toolCall projectDir autoApprove s =
     (let name = tc_name toolCall; a = tc_args toolCall;
          risk = tool_risk name;
          s1 = emit [ToolBanner name] s
      in if risk \<noteq> Safe \<and> \<not> autoApprove then
           (case preview name a of
              (shown, Some msg) \<Rightarrow> (Inl msg, emit shown s1)
            | (shown, None) \<Rightarrow>
                (case askPermission E risk (emit shown s1) of
                   (answer, s2) \<Rightarrow>
                     if answer = ''n'' \<or> answer = ''no'' then (Inr ''Operation denied by user.'', s2)
                     else if answer = ''skip'' \<or> answer = ''s'' then (Inr ''Operation skipped by user.'', s2)
                     else run_tool E name a projectDir s2))
         else run_tool E name a projectDir s1)"

text \<open>\<open>handleToolCall\<close>: the \<open>try\<close> block and its \<open>catch\<close>.\<close>

definition handleToolCall ::
  "'w env \<Rightarrow> toolcall \<Rightarrow> string \<Rightarrow> bool \<Rightarrow> 'w state \<Rightarrow> string \<times> 'w state" where
  "handleToolCall E toolCall projectDir autoApprove s =
     (case handleToolCall_try E toolCall projectDir autoApprove s of
        (Inr r, s') \<Rightarrow> (r, s')
      | (Inl msg, s') \<Rightarrow> (''Error executing tool: '' @ msg, emit [ToolError msg] s'))"

section \<open>Normalising the model's reply\<close>

definition parse_input :: "(string \<Rightarrow> args result) \<Rightarrow> tinput \<Rightarrow> args result" where
  "parse_input jp i =
     (case i of ArgText t \<Rightarrow> jp t | ArgObject a \<Rightarrow> Inr a | ArgNone \<Rightarrow> Inr (\<lambda>k. JUndefined))"

text \<open>The two \<open>for\<close> loops of \<open>normalizeToolCalls\<close>; a throwing \<open>JSON.parse\<close> ends them.\<close>

fun openai_calls :: "(string \<Rightarrow> args result) \<Rightarrow> oa_call list \<Rightarrow> toolcall list result" where
  "openai_calls jp [] = Inr []"
| "openai_calls jp (tc # tcs) =
     (case parse_input jp (oa_arguments tc) of
        Inl err \<Rightarrow> Inl err
      | Inr a \<Rightarrow>
          (case openai_calls jp tcs of
             Inl err \<Rightarrow> Inl err
           | Inr calls \<Rightarrow> Inr (\<lparr>tc_id = oa_id tc, tc_name = oa_name tc, tc_args = a\<rparr> # calls)))"

fun block_calls :: "(string \<Rightarrow> args result) \<Rightarrow> block list \<Rightarrow> toolcall list result" where
  "block_calls jp [] = Inr []"
| "block_calls jp (ToolUseBlock i n inp # bs) =
     (case parse_input jp inp of
        Inl err \<Rightarrow> Inl err
      | Inr a \<Rightarrow>
          (case block_calls jp bs of
             Inl err \<Rightarrow> Inl err
           | Inr calls \<Rightarrow> Inr (\<lparr>tc_id = i, tc_name = n, tc_args = a\<rparr> # calls)))"
| "block_calls jp (b # bs) = block_calls jp bs"

definition normalizeToolCalls :: "(string \<Rightarrow> args result) \<Rightarrow> msgval \<Rightarrow> toolcall list result" where
  "normalizeToolCalls jp m =
     (case m of
        MObject msg \<Rightarrow>
          (case tool_calls msg of
             Some (tc # tcs) \<Rightarrow> openai_calls jp (tc # tcs)
           | _ \<Rightarrow>
              (case content msg of
                 BlockContent bs \<Rightarrow> block_calls jp bs
               | _ \<Rightarrow> Inr []))
      | _ \<Rightarrow> Inr [])"

text \<open>\<open>content.filter(c => c.type === 'text').map(c => c.text)\<close>.\<close>

fun block_texts :: "block list \<Rightarrow> string list" where
  "block_texts [] = []"
| "block_texts (TextBlock t # bs) = t # block_texts bs"
| "block_texts (b # bs) = block_texts bs"

text \<open>\<open>extractText\<close> of \<open>agent.js\<close>; the last argument of a reply object is what its \<open>toString()\<close> returns.\<close>

definition toString_fallback :: "string \<Rightarrow> string" where
  "toString_fallback str =
     (if str \<noteq> [] \<and> str \<noteq> ''[object Object]'' \<and> \<not> startsWith str ''undefined'' then str else [])"

fun extractText :: "response \<Rightarrow> string" where
  "extractText (RString s) = s"
| "extractText RNull = []"
| "extractText (RBare m str) = toString_fallback str"
| "extractText (RWrapped m str) =
     (case content m of
        TextContent t \<Rightarrow> if t \<noteq> [] then t else toString_fallback str
      | BlockContent bs \<Rightarrow>
          if block_texts bs \<noteq> [] then concat (block_texts bs) else toString_fallback str
      | NoContent \<Rightarrow> toString_fallback str)"

text \<open>\<open>const message = response?.message || response\<close>.\<close>

fun response_message :: "response \<Rightarrow> msgval" where
  "response_message RNull = MNull"
| "response_message (RString s) = MString s"
| "response_message (RWrapped m str) = MObject m"
| "response_message (RBare m str) = MObject m"

text \<open>
  \<open>normalizeAssistantMessage\<close>, followed by the test \<open>if (normalizedMsg)\<close> of the
  loop: \<open>None\<close> is a falsy result, which is not pushed.
\<close>

definition normalizeAssistantMessage ::
  "(args \<Rightarrow> string) \<Rightarrow> msgval \<Rightarrow> toolcall list \<Rightarrow> hmsg option" where
  "normalizeAssistantMessage js m toolCalls =
     (case m of
        MNull \<Rightarrow> None
      | MString s \<Rightarrow> if s = [] then None else Some (RawString s)
      | MObject msg \<Rightarrow>
          if tool_calls msg \<noteq> None then Some (AssistantSame msg)
          else if toolCalls \<noteq> [] then
            Some (AssistantCalls
              (case content msg of
                 BlockContent bs \<Rightarrow> if block_texts bs \<noteq> [] then Some (concat (block_texts bs)) else None
               | TextContent t \<Rightarrow> Some t
               | NoContent \<Rightarrow> None)
              (map (\<lambda>tc. (tc_id tc, tc_name tc, js (tc_args tc))) toolCalls))
          else
            (case content msg of
               BlockContent bs \<Rightarrow> Some (AssistantText (concat (block_texts bs)))
             | _ \<Rightarrow> Some (AssistantSame msg)))"

section \<open>The agent loop\<close>

text \<open>The \<open>for\<close> loop over the tool calls: each result is pushed as a tool turn.\<close>

fun dispatch :: "'w env \<Rightarrow> string \<Rightarrow> bool \<Rightarrow> toolcall list \<Rightarrow> 'w state \<Rightarrow> 'w state" where
  "dispatch E projectDir autoApprove [] s = s"
| "dispatch E projectDir autoApprove (tc # tcs) s =
     (case handleToolCall E tc projectDir autoApprove s of
        (result, s') \<Rightarrow>
          dispatch E projectDir autoApprove tcs
            (s'\<lparr>messages := messages s' @ [ToolMsg (tc_id tc) result]\<rparr>))"

text \<open>
  The \<open>catch\<close> block of the loop: the error is shown; a message that mentions a rate
  limit waits and continues with the next iteration, any other breaks the loop.
\<close>

datatype flow = NextIteration | Break

definition on_error :: "string \<Rightarrow> 'w state \<Rightarrow> flow \<times> 'w state" where
  "on_error errMsg s =
     (if errMsg \<noteq> [] \<and> (str_includes errMsg ''rate limit'' \<or> str_includes errMsg ''429'')
      then (NextIteration, emit [ErrorShown errMsg, RetryWait] s)
      else (Break, emit [ErrorShown errMsg] s))"

text \<open>
  One pass through the body of the \<open>while\<close> loop, after \<open>iterations++\<close>:
  the model call, the normalisation of the reply, the text printed beside tool calls and
  the push of the normalised message (\<open>note_reply\<close>), then the two branches. The branch
  with tool calls ends in \<open>continue\<close>; the branch without prints the final text and
  reaches the end of the body, from where the \<open>while\<close> condition is tested again.
\<close>

definition note_reply :: "'w env \<Rightarrow> response \<Rightarrow> toolcall list \<Rightarrow> 'w state \<Rightarrow> 'w state" where
  "note_reply E response toolCalls s1 =
     (let textParts = extractText response;
          s2 = (if trim textParts \<noteq> [] \<and> toolCalls \<noteq> []
                then emit [AiText (trim textParts)] s1 else s1)
      in case normalizeAssistantMessage (json_stringify E) (response_message response) toolCalls of
           Some normalizedMsg \<Rightarrow> s2\<lparr>messages := messages s2 @ [normalizedMsg]\<rparr>
         | None \<Rightarrow> s2)"

definition loop_body :: "'w env \<Rightarrow> string \<Rightarrow> bool \<Rightarrow> 'w state \<Rightarrow> flow \<times> 'w state" where
  "loop_body E projectDir autoApprove s =
     (let s1 = emit [ModelCall] s
      in case chat E (length (filter is_model_call (log s))) (messages s) of
           Inl errMsg \<Rightarrow> on_error errMsg s1
         | Inr response \<Rightarrow>
             (case normalizeToolCalls (json_parse E) (response_message response) of
                Inl errMsg \<Rightarrow> on_error errMsg s1
              | Inr toolCalls \<Rightarrow>
                  (let s3 = note_reply E response toolCalls s1
                   in if toolCalls \<noteq> [] then
                        (NextIteration, dispatch E projectDir autoApprove toolCalls s3)
                      else if trim (extractText response) \<noteq> [] then
                        (NextIteration, emit [FinalText (extractText response)] s3)
                      else (NextIteration, s3))))"

text \<open>The \<open>while (iterations < maxIterations)\<close> loop; it returns the final counter.\<close>

function while_loop ::
  "'w env \<Rightarrow> string \<Rightarrow> bool \<Rightarrow> nat \<Rightarrow> nat \<Rightarrow> 'w state \<Rightarrow> nat \<times> 'w state" where
  "while_loop E projectDir autoApprove maxIterations iterations s =
     (if iterations < maxIterations then
        (case loop_body E projectDir autoApprove s of
           (NextIteration, s') \<Rightarrow> while_loop E projectDir autoApprove maxIterations (Suc iterations) s'
         | (Break, s') \<Rightarrow> (Suc iterations, s'))
      else (iterations, s))"
  by pat_completeness auto
termination
  by (relation "measure (\<lambda>(E, projectDir, autoApprove, maxIterations, iterations, s). maxIterations - iterations)") auto

declare while_loop.simps [simp del]

definition runAgentLoop ::
  "'w env \<Rightarrow> string \<Rightarrow> bool \<Rightarrow> nat \<Rightarrow> 'w state \<Rightarrow> 'w state" where
  "runAgentLoop E projectDir autoApprove maxIterations s =
     (case while_loop E projectDir autoApprove maxIterations 0 s of
        (iterations, s') \<Rightarrow>
          if iterations \<ge> maxIterations then emit [MaxIterWarning maxIterations] s' else s')"

section \<open>The tool edit_file\<close>

text \<open>
  \<open>s.replace(t, r)\<close> with a string pattern replaces the first occurrence only. The
  replacement is a template: \<open>$$\<close> stands for a dollar sign, \<open>$&\<close> for the matched
  text, a dollar sign with a backtick for the text before the match and with an
  apostrophe for the text after it; every other dollar sign is literal (there are no
  capture groups).
\<close>

fun getSubstitution :: "string \<Rightarrow> string \<Rightarrow> string \<Rightarrow> string \<Rightarrow> string" where
  "getSubstitution matched before after [] = []"
| "getSubstitution matched before after [c] = [c]"
| "getSubstitution matched before after (c # d # r) =
     (if c = CHR ''$'' \<and> d = CHR ''$'' then CHR ''$'' # getSubstitution matched before after r
      else if c = CHR ''$'' \<and> d = CHR ''&'' then matched @ getSubstitution matched before after r
      else if c = CHR ''$'' \<and> d = CHR 0x60 then before @ getSubstitution matched before after r
      else if c = CHR ''$'' \<and> d = CHR 0x27 then after @ getSubstitution matched before after r
      else c # getSubstitution matched before after (d # r))"

definition replace :: "string \<Rightarrow> string \<Rightarrow> string \<Rightarrow> string" where
  "replace s t r =
     (case indexOf s t of
        None \<Rightarrow> s
      | Some pos \<Rightarrow>
          take pos s @ getSubstitution t (take pos s) (drop (pos + length t) s) r
            @ drop (pos + length t) s)"

text \<open>
  The files \<open>edit_file\<close> works on, by resolved path: reading a file gives its content
  or throws, writing it succeeds or throws (and then leaves the content as it was).
\<close>

record fnode =
  contents :: "string result"
  write_error :: "string option"

type_synonym files = "string \<Rightarrow> fnode"

text \<open>
  \<open>editFileImpl\<close>. \<open>path.resolve\<close> is a parameter; it is called before the \<open>try\<close>
  block and throws a \<open>TypeError\<close> for a path that is not a string, which rejects the
  promise. Everything the \<open>try\<close> block throws is returned as text.
\<close>

definition editFileImpl ::
  "(string \<Rightarrow> string \<Rightarrow> string) \<Rightarrow> args \<Rightarrow> string \<Rightarrow> files \<Rightarrow> string result \<times> files" where
  "editFileImpl resolve a projectDir fs =
     (case a ''path'' of
        JStr p \<Rightarrow>
          (let filePath = resolve projectDir p
           in case contents (fs filePath) of
                Inl msg \<Rightarrow> (Inr (''Error editing file: '' @ msg), fs)
              | Inr oldContent \<Rightarrow>
                  if \<not> str_includes oldContent (to_string (a ''target'')) then
                    (Inr (''Error: Target string not found in '' @ p @ ''. Make sure it matches exactly.''), fs)
                  else
                    (let newContent = replace oldContent (to_string (a ''target'')) (to_string (a ''replacement''))
                     in case write_error (fs filePath) of
                          Some msg \<Rightarrow> (Inr (''Error editing file: '' @ msg), fs)
                        | None \<Rightarrow>
                            (Inr (''File edited successfully: '' @ filePath),
                             fs(filePath := (fs filePath)\<lparr>contents := Inr newContent\<rparr>))))
      | _ \<Rightarrow> (Inl ''The paths[1] argument must be of type string'', fs))"

section \<open>The tool list_directory\<close>

text \<open>
  The directory tree as one traversal sees it. For a file: its name, the size \<open>stat\<close>
  reports (or \<open>None\<close> when \<open>stat\<close> throws) and what \<open>readFile\<close> gives as UTF-8 text
  (or \<open>None\<close> when it throws). For a directory: its name, the message of the
  exception \<open>readdir\<close> throws on it, if it does, and otherwise its entries in the order
  \<open>readdir\<close> returns them. An entry that is not a directory (a link, a socket) counts
  as a file, as \<open>isDirectory()\<close> has it.
\<close>

datatype dirent =
    FileEnt string "nat option" "string option"
  | DirEnt string "string option" "dirent list"

fun ent_name :: "dirent \<Rightarrow> string" where
  "ent_name (FileEnt n sz txt) = n"
| "ent_name (DirEnt n err es) = n"

fun isDirectory :: "dirent \<Rightarrow> bool" where
  "isDirectory (FileEnt n sz txt) = False"
| "isDirectory (DirEnt n err es) = True"

text \<open>The number of entries of a tree, at all depths.\<close>

fun count_entries :: "dirent \<Rightarrow> nat" where
  "count_entries (FileEnt n sz txt) = 1"
| "count_entries (DirEnt n err es) = 1 + sum_list (map count_entries es)"

text \<open>
  \<open>entries.sort(compare)\<close>: the sort of an array is stable; for a comparator that is a
  consistent order its result is the one of a stable insertion sort. \<open>localeCompare\<close>
  depends on the platform's locale and is a parameter.
\<close>

fun insert_sorted :: "('a \<Rightarrow> 'a \<Rightarrow> int) \<Rightarrow> 'a \<Rightarrow> 'a list \<Rightarrow> 'a list" where
  "insert_sorted cmp x [] = [x]"
| "insert_sorted cmp x (y # ys) =
     (if cmp x y \<le> 0 then x # y # ys else y # insert_sorted cmp x ys)"

definition js_sort :: "('a \<Rightarrow> 'a \<Rightarrow> int) \<Rightarrow> 'a list \<Rightarrow> 'a list" where
  "js_sort cmp xs = foldr (insert_sorted cmp) xs []"

definition compare_entries :: "(string \<Rightarrow> string \<Rightarrow> int) \<Rightarrow> dirent \<Rightarrow> dirent \<Rightarrow> int" where
  "compare_entries localeCompare a b =
     (if isDirectory a \<and> \<not> isDirectory b then - 1
      else if \<not> isDirectory a \<and> isDirectory b then 1
      else localeCompare (ent_name a) (ent_name b))"

definition SKIP_DIRS :: "string list" where
  "SKIP_DIRS =
     [''node_modules'', ''.git'', ''__pycache__'', ''.next'', ''dist'', ''.cache'',
      ''.gemini'', ''.vscode'', ''.idea'', ''AppData'', ''Application Data'',
      ''Local Settings'', ''Desktop'', ''Documents'', ''Downloads'', ''Music'',
      ''Pictures'', ''Videos'', ''OneDrive'', ''Contacts'', ''Favorites'',
      ''Links'', ''Saved Games'', ''Searches'', ''PrintHood'', ''Recent'',
      ''SendTo'', ''Templates'', ''NetHood'', ''ntuser.dat'', ''NTUSER.DAT'',
      ''coverage'', ''.nyc_output'', ''.angular'', ''.npm'', ''.yarn'',
      ''.nuget'', ''.dotnet'', ''.cargo'', ''vendor'', ''target'']"

definition skipped :: "string \<Rightarrow> bool" where
  "skipped name = (name \<in> set SKIP_DIRS \<or> startsWith name ''ntuser'')"

text \<open>
  The size shown for a file. \<open>(size / 1024).toFixed(1)\<close> rounds the exact quotient to
  one decimal, halves upwards (the quotient by a power of two is exact for the sizes
  a double represents exactly, those below \<open>2^53\<close>).
\<close>

definition toFixed1 :: "nat \<Rightarrow> nat \<Rightarrow> string" where
  "toFixed1 bytes unit =
     (let n = (10 * bytes + unit div 2) div unit
      in show_nat (n div 10) @ ''.'' @ show_nat (n mod 10))"

definition human_size :: "nat \<Rightarrow> string" where
  "human_size bytes =
     (if bytes < 1024 then show_nat bytes @ ''B''
      else if bytes < 1048576 then toFixed1 bytes 1024 @ ''KB''
      else toFixed1 bytes 1048576 @ ''MB'')"

text \<open>
  The lines \<open>listDir\<close> pushes to \<open>results\<close>, tagged by the statement that pushes them:
  the line of an entry, the capped notice, the line of a \<open>readdir\<close> error.
\<close>

datatype listing_line = EntryLine string | CappedLine string | ErrorLine string

fun line_text :: "listing_line \<Rightarrow> string" where
  "line_text (EntryLine t) = t"
| "line_text (CappedLine t) = t"
| "line_text (ErrorLine t) = t"

fun is_entry :: "listing_line \<Rightarrow> bool" where
  "is_entry (EntryLine t) = True"
| "is_entry l = False"

fun is_capped :: "listing_line \<Rightarrow> bool" where
  "is_capped (CappedLine t) = True"
| "is_capped l = False"

definition maxEntries :: nat where
  "maxEntries = 200"

definition file_line :: "string \<Rightarrow> string \<Rightarrow> nat option \<Rightarrow> listing_line" where
  "file_line prefix name sz =
     (case sz of
        Some bytes \<Rightarrow> EntryLine (prefix @ name @ '' ('' @ human_size bytes @ '')'')
      | None \<Rightarrow> EntryLine (prefix @ name))"

lemma size_insert_sorted:
  "size_list f (insert_sorted cmp x ys) = size_list f (x # ys)"
  by (induction ys) auto

lemma size_js_sort: "size_list f (js_sort cmp xs) = size_list f xs"
  by (induction xs) (auto simp: js_sort_def size_insert_sorted)

text \<open>
  \<open>listDir\<close> and the \<open>for\<close> loop in it. The counter \<open>entryCount\<close>, shared by all the
  calls, is passed in and returned. The directory is given by what \<open>readdir\<close> does on
  it: the error it throws, or its entries.
\<close>

function listDir ::
    "(string \<Rightarrow> string \<Rightarrow> int) \<Rightarrow> bool \<Rightarrow> string option \<Rightarrow> dirent list \<Rightarrow> nat \<Rightarrow> string \<Rightarrow> nat
      \<Rightarrow> listing_line list \<times> nat"
  and listLoop ::
    "(string \<Rightarrow> string \<Rightarrow> int) \<Rightarrow> bool \<Rightarrow> dirent list \<Rightarrow> nat \<Rightarrow> string \<Rightarrow> nat
      \<Rightarrow> listing_line list \<times> nat"
where
  "listDir lc recursive err entries depth prefix entryCount =
     (if depth > (if recursive then 3 else 1) \<or> entryCount \<ge> maxEntries then ([], entryCount)
      else case err of
             Some msg \<Rightarrow> ([ErrorLine (prefix @ ''[Error: '' @ msg @ '']'')], entryCount)
           | None \<Rightarrow>
               listLoop lc recursive (js_sort (compare_entries lc) entries) depth prefix entryCount)"
| "listLoop lc recursive [] depth prefix entryCount = ([], entryCount)"
| "listLoop lc recursive (entry # rest) depth prefix entryCount =
     (if entryCount \<ge> maxEntries then
        ([CappedLine (prefix @ ''... (capped at '' @ show_nat maxEntries @ '' entries)'')], entryCount)
      else if skipped (ent_name entry) then
        (case listLoop lc recursive rest depth prefix (Suc entryCount) of
           (ls, n) \<Rightarrow> (EntryLine (prefix @ ent_name entry @ ''/ [skipped]'') # ls, n))
      else
        (case entry of
           DirEnt name suberr children \<Rightarrow>
             (case (if recursive
                    then listDir lc recursive suberr children (Suc depth) (prefix @ ''  '') (Suc entryCount)
                    else ([], Suc entryCount)) of
                (sub, n1) \<Rightarrow>
                  (case listLoop lc recursive rest depth prefix n1 of
                     (ls, n2) \<Rightarrow> (EntryLine (prefix @ name @ ''/'') # sub @ ls, n2)))
         | FileEnt name sz txt \<Rightarrow>
             (case listLoop lc recursive rest depth prefix (Suc entryCount) of
                (ls, n) \<Rightarrow> (file_line prefix name sz # ls, n))))"
  by pat_completeness auto
termination
  by (relation "measure (\<lambda>x. case x of
          Inl (lc, recursive, err, entries, depth, prefix, entryCount) \<Rightarrow> 2 * size_list size entries + 1
        | Inr (lc, recursive, entries, depth, prefix, entryCount) \<Rightarrow> 2 * size_list size entries)")
     (auto simp: size_js_sort)

declare listDir.simps [simp del] listLoop.simps [simp del]

text \<open>
  \<open>listDirectoryImpl\<close>. \<open>path.resolve\<close> (called outside any \<open>try\<close>) throws for a
  truthy path that is not a string. The last argument is the directory view of the file
  system: what \<open>readdir\<close> does at a resolved path.
\<close>

definition listDirectoryImpl ::
  "(string \<Rightarrow> string \<Rightarrow> string) \<Rightarrow> (string \<Rightarrow> string \<Rightarrow> int) \<Rightarrow> args \<Rightarrow> string
     \<Rightarrow> (string \<Rightarrow> string option \<times> dirent list) \<Rightarrow> string result" where
  "listDirectoryImpl resolve lc a projectDir dirs =
     (if truthy (a ''path'') \<and> \<not> is_str (a ''path'')
      then Inl ''The paths[1] argument must be of type string''
      else
        (let dirPath = resolve projectDir (if truthy (a ''path'') then to_string (a ''path'') else ''.'')
         in case dirs dirPath of
              (err, entries) \<Rightarrow>
                (let items = fst (listDir lc (truthy (a ''recursive'')) err entries 1 [] 0);
                     out = join [CHR 0x0A] (map line_text items)
                 in Inr (if out = [] then ''(empty directory)'' else out))))"

section \<open>The tool search_files\<close>

text \<open>
  \<open>path.extname\<close> of a file name: from the last dot on, and empty when there is no
  dot, when the only dot leads the name, and for the name of two dots.
\<close>

definition extname :: "string \<Rightarrow> string" where
  "extname name =
     (let afterDot = takeWhile (\<lambda>c. c \<noteq> CHR ''.'') (rev name)
      in if length afterDot = length name then []
         else if length afterDot + 1 = length name then []
         else if name = ''..'' then []
         else CHR ''.'' # rev afterDot)"

text \<open>
  The file-name filter of \<open>walkDir\<close>: \<open>None\<close> when \<open>args.file_pattern.replace\<close> throws
  (a truthy pattern that is not a string), otherwise whether the file is searched.
\<close>

definition passes_filter :: "jsval \<Rightarrow> string \<Rightarrow> bool option" where
  "passes_filter file_pattern name =
     (if \<not> truthy file_pattern then Some True
      else case file_pattern of
             JStr p \<Rightarrow>
               (let ext = extname name; pattern = replace p ''*'' []
                in Some (\<not> (\<not> endsWith name pattern \<and> ext \<noteq> pattern)))
           | _ \<Rightarrow> None)"

text \<open>
  The state of one search: the \<open>results\<close> array, and a trace of what the scan does
  (the directories and files it reads, the lines it tests, the matches it records).
\<close>

datatype scan_event = ReadDir string | ReadFile string | LineTest string nat | Match string

fun is_match :: "scan_event \<Rightarrow> bool" where
  "is_match (Match r) = True"
| "is_match e = False"

record search_state =
  results :: "string list"
  trace :: "scan_event list"

definition maxResults :: nat where
  "maxResults = 30"

record path_module =
  path_resolve :: "string \<Rightarrow> string \<Rightarrow> string"
  path_join :: "string \<Rightarrow> string \<Rightarrow> string"
  path_relative :: "string \<Rightarrow> string \<Rightarrow> string"

text \<open>The \<open>for\<close> loop of \<open>searchInFile\<close> over the lines, from index \<open>i\<close>.\<close>

fun scan_lines :: "string \<Rightarrow> string \<Rightarrow> string \<Rightarrow> string list \<Rightarrow> nat \<Rightarrow> search_state \<Rightarrow> search_state" where
  "scan_lines pattern relPath filePath [] i st = st"
| "scan_lines pattern relPath filePath (l # ls) i st =
     (let st1 = st\<lparr>trace := trace st @ [LineTest filePath (i + 1)]\<rparr>
      in if str_includes l pattern then
           (let r = relPath @ '':'' @ show_nat (i + 1) @ '': '' @ trim l;
                st2 = st1\<lparr>results := results st1 @ [r], trace := trace st1 @ [Match r]\<rparr>
            in if length (results st2) \<ge> maxResults then st2
               else scan_lines pattern relPath filePath ls (i + 1) st2)
         else scan_lines pattern relPath filePath ls (i + 1) st1)"

definition searchInFile ::
  "path_module \<Rightarrow> args \<Rightarrow> string \<Rightarrow> string \<Rightarrow> string option \<Rightarrow> search_state \<Rightarrow> search_state" where
  "searchInFile P a projectDir filePath body st =
     (let st1 = st\<lparr>trace := trace st @ [ReadFile filePath]\<rparr>
      in case body of
           None \<Rightarrow> st1
         | Some text \<Rightarrow>
             scan_lines (to_string (a ''pattern'')) (path_relative P projectDir filePath) filePath
               (split_lines text) 0 st1)"

definition search_skip :: "string list" where
  "search_skip = [''node_modules'', ''.git'', ''__pycache__'', ''.next'', ''dist'']"

function walkDir ::
    "path_module \<Rightarrow> args \<Rightarrow> string \<Rightarrow> string option \<Rightarrow> dirent list \<Rightarrow> string \<Rightarrow> nat
      \<Rightarrow> search_state \<Rightarrow> search_state"
  and walkLoop ::
    "path_module \<Rightarrow> args \<Rightarrow> string \<Rightarrow> dirent list \<Rightarrow> string \<Rightarrow> nat \<Rightarrow> search_state \<Rightarrow> search_state"
where
  "walkDir P a projectDir err entries dir depth st =
     (if depth > 5 \<or> length (results st) \<ge> maxResults then st
      else
        (let st1 = st\<lparr>trace := trace st @ [ReadDir dir]\<rparr>
         in case err of
              Some msg \<Rightarrow> st1
            | None \<Rightarrow> walkLoop P a projectDir entries dir depth st1))"
| "walkLoop P a projectDir [] dir depth st = st"
| "walkLoop P a projectDir (entry # rest) dir depth st =
     (if length (results st) \<ge> maxResults then st
      else if ent_name entry \<in> set search_skip then walkLoop P a projectDir rest dir depth st
      else
        (let fullPath = path_join P dir (ent_name entry)
         in case entry of
              DirEnt name suberr children \<Rightarrow>
                walkLoop P a projectDir rest dir depth
                  (walkDir P a projectDir suberr children fullPath (depth + 1) st)
            | FileEnt name sz body \<Rightarrow>
                (case passes_filter (a ''file_pattern'') name of
                   None \<Rightarrow> st
                 | Some False \<Rightarrow> walkLoop P a projectDir rest dir depth st
                 | Some True \<Rightarrow>
                     walkLoop P a projectDir rest dir depth
                       (searchInFile P a projectDir fullPath body st))))"
  by pat_completeness auto
termination
  by (relation "measure (\<lambda>x. case x of
          Inl (P, a, projectDir, err, entries, dir, depth, st) \<Rightarrow> 2 * size_list size entries + 1
        | Inr (P, a, projectDir, entries, dir, depth, st) \<Rightarrow> 2 * size_list size entries)")
     auto

declare walkDir.simps [simp del] walkLoop.simps [simp del]

text \<open>
  \<open>searchFilesImpl\<close>. \<open>path.resolve\<close> throws for a truthy path that is not a string.
\<close>

definition search_output :: "string list \<Rightarrow> string" where
  "search_output rs =
     (if length rs > 0
      then join [CHR 0x0A] rs
             @ (if length rs \<ge> maxResults
                then CHR 0x0A # ''... (capped at '' @ show_nat maxResults @ '' results)'' else [])
      else ''No matches found.'')"

definition search_scan ::
  "path_module \<Rightarrow> args \<Rightarrow> string \<Rightarrow> (string \<Rightarrow> string option \<times> dirent list) \<Rightarrow> search_state" where
  "search_scan P a projectDir dirs =
     (let searchDir = path_resolve P projectDir (if truthy (a ''path'') then to_string (a ''path'') else ''.'')
      in case dirs searchDir of
           (err, entries) \<Rightarrow>
             walkDir P a projectDir err entries searchDir 0 \<lparr>results = [], trace = []\<rparr>)"

definition searchFilesImpl ::
  "path_module \<Rightarrow> args \<Rightarrow> string \<Rightarrow> (string \<Rightarrow> string option \<times> dirent list) \<Rightarrow> string result" where
  "searchFilesImpl P a projectDir dirs =
     (if truthy (a ''path'') \<and> \<not> is_str (a ''path'')
      then Inl ''The paths[1] argument must be of type string''
      else Inr (search_output (results (search_scan P a projectDir dirs))))"

section \<open>What the specification describes\<close>

text \<open>
  What the specification says \<open>edit_file\<close> does: every occurrence of a non-empty target,
  from left to right and without overlap, is replaced by the replacement.
\<close>

function spec_replace_all :: "string \<Rightarrow> string \<Rightarrow> string \<Rightarrow> string" where
  "spec_replace_all s t r =
     (if s = [] \<or> t = [] then s
      else if startsWith s t then r @ spec_replace_all (drop (length t) s) t r
      else hd s # spec_replace_all (tl s) t r)"
  by pat_completeness auto
termination
  by (relation "measure (\<lambda>(s, t, r). length s)") (auto simp: neq_Nil_conv)

declare spec_replace_all.simps [simp del]

text \<open>
  The traversal the cap cuts short, as the specification describes it: depth first, to
  depth 3 when recursive and 1 otherwise, every level sorted, an entry with a name of
  the deny-list listed once, marked, and not entered.
\<close>

function walk_dir ::
    "(string \<Rightarrow> string \<Rightarrow> int) \<Rightarrow> bool \<Rightarrow> string option \<Rightarrow> dirent list \<Rightarrow> nat \<Rightarrow> string
      \<Rightarrow> listing_line list"
  and walk_entries ::
    "(string \<Rightarrow> string \<Rightarrow> int) \<Rightarrow> bool \<Rightarrow> dirent list \<Rightarrow> nat \<Rightarrow> string \<Rightarrow> listing_line list"
where
  "walk_dir lc recursive err entries depth prefix =
     (if depth > (if recursive then 3 else 1) then []
      else case err of
             Some msg \<Rightarrow> [ErrorLine (prefix @ ''[Error: '' @ msg @ '']'')]
           | None \<Rightarrow> walk_entries lc recursive (js_sort (compare_entries lc) entries) depth prefix)"
| "walk_entries lc recursive [] depth prefix = []"
| "walk_entries lc recursive (entry # rest) depth prefix =
     (if skipped (ent_name entry) then
        EntryLine (prefix @ ent_name entry @ ''/ [skipped]'') # walk_entries lc recursive rest depth prefix
      else
        (case entry of
           DirEnt name suberr children \<Rightarrow>
             EntryLine (prefix @ name @ ''/'')
               # (if recursive then walk_dir lc recursive suberr children (Suc depth) (prefix @ ''  '') else [])
               @ walk_entries lc recursive rest depth prefix
         | FileEnt name sz txt \<Rightarrow>
             file_line prefix name sz # walk_entries lc recursive rest depth prefix))"
  by pat_completeness auto
termination
  by (relation "measure (\<lambda>x. case x of
          Inl (lc, recursive, err, entries, depth, prefix) \<Rightarrow> 2 * size_list size entries + 1
        | Inr (lc, recursive, entries, depth, prefix) \<Rightarrow> 2 * size_list size entries)")
     (auto simp: size_js_sort)

declare walk_dir.simps [simp del] walk_entries.simps [simp del]

section \<open>Test doubles\<close>

text \<open>
  Test doubles for the closed instances below: an environment whose executor succeeds
  with a text naming the tool (the world counts the calls), a human who types the
  given lines in turn, an initial state, and tool calls and replies built from object
  literals.
\<close>

definition stub_env :: "(nat \<Rightarrow> hmsg list \<Rightarrow> response result) \<Rightarrow> string list \<Rightarrow> nat env" where
  "stub_env c answers =
     \<lparr>chat = c,
      human = (\<lambda>k. if k < length answers then answers ! k else []),
      executeTool = (\<lambda>name a dir w. (Inr (''ran '' @ name), Suc w)),
      json_parse = (\<lambda>t. Inl ''Unexpected token''),
      json_stringify = (\<lambda>a. ''{}'')\<rparr>"

definition init_state :: "hmsg list \<Rightarrow> nat state" where
  "init_state ms = \<lparr>messages = ms, log = [], world = 0\<rparr>"

definition args_of :: "(string \<times> jsval) list \<Rightarrow> args" where
  "args_of kvs = (\<lambda>k. case map_of kvs k of Some v \<Rightarrow> v | None \<Rightarrow> JUndefined)"

definition call_of :: "string \<Rightarrow> string \<Rightarrow> (string \<times> jsval) list \<Rightarrow> toolcall" where
  "call_of i n kvs = \<lparr>tc_id = i, tc_name = n, tc_args = args_of kvs\<rparr>"

definition tool_request_reply :: response where
  "tool_request_reply =
     RWrapped \<lparr>content = NoContent,
               tool_calls = Some [\<lparr>oa_id = ''call_1'', oa_name = ''read_file'',
                                  oa_arguments = ArgObject (args_of [(''path'', JStr ''index.js'')])\<rparr>]\<rparr> []"

definition final_reply :: response where
  "final_reply =
     RWrapped \<lparr>content = TextContent ''Added a guard clause.'', tool_calls = None\<rparr> ''Added a guard clause.''"

text \<open>Test doubles: \<open>path.resolve\<close> on a relative name, and a project with one file.\<close>

definition resolve_posix :: "string \<Rightarrow> string \<Rightarrow> string" where
  "resolve_posix dir p = dir @ ''/'' @ p"

definition one_file :: "string \<Rightarrow> string \<Rightarrow> files" where
  "one_file path text =
     (\<lambda>p. if p = path then \<lparr>contents = Inr text, write_error = None\<rparr>
          else \<lparr>contents = Inl ''ENOENT: no such file or directory'', write_error = None\<rparr>)"

text \<open>
  Test doubles: the order of the code units in place of \<open>localeCompare\<close> (the two
  agree on names made of one repeated lower-case letter), a directory of 200
  subdirectories the last of which holds one file, and a directory holding a
  subdirectory with 200 files and one more file.
\<close>

fun compare_codes :: "string \<Rightarrow> string \<Rightarrow> int" where
  "compare_codes [] [] = 0"
| "compare_codes [] (y # ys) = - 1"
| "compare_codes (x # xs) [] = 1"
| "compare_codes (x # xs) (y # ys) =
     (if (of_char x :: nat) < of_char y then - 1
      else if (of_char y :: nat) < of_char x then 1
      else compare_codes xs ys)"

definition xs_name :: "nat \<Rightarrow> string" where
  "xs_name i = replicate (Suc i) (CHR ''x'')"

definition wide_tree :: "dirent list" where
  "wide_tree =
     map (\<lambda>i. DirEnt (xs_name i) None
                 (if i = 199 then [FileEnt ''notes.txt'' (Some 12) (Some ''hello'')] else []))
       [0..<200]"

definition deep_tree :: "dirent list" where
  "deep_tree =
     [DirEnt ''src'' None (map (\<lambda>i. FileEnt (xs_name i) (Some 0) (Some [])) [0..<200]),
      FileEnt ''z.txt'' (Some 0) (Some [])]"

text \<open>Test doubles: POSIX-like path functions, and a directory of two files.\<close>

definition posix :: path_module where
  "posix =
     \<lparr>path_resolve = (\<lambda>dir p. dir @ ''/'' @ p),
      path_join = (\<lambda>dir name. dir @ ''/'' @ name),
      path_relative = (\<lambda>from to. drop (length from + 1) to)\<rparr>"

definition two_files :: "string \<Rightarrow> string option \<times> dirent list" where
  "two_files p =
     (if p = ''/proj/src''
      then (None,
            [FileEnt ''a.txt'' (Some 80) (Some (concat (replicate 40 [CHR ''x'', CHR 0x0A]))),
             FileEnt ''b.txt'' (Some 2) (Some ''x'')])
      else (Some ''ENOENT: no such file or directory'', []))"

section \<open>Properties of the registry\<close>

lemma tool_risk_registered:
  "tool_risk ''read_file'' = Safe" "tool_risk ''list_directory'' = Safe"
  "tool_risk ''search_files'' = Safe" "tool_risk ''get_project_info'' = Safe"
  "tool_risk ''write_file'' = Ask" "tool_risk ''edit_file'' = Ask"
  "tool_risk ''run_command'' = Danger"
  by (simp_all add: tool_risk_def tool_risk_get_def TOOL_RISK_def)

lemma tool_risk_unregistered:
  assumes "map_of TOOL_RISK name = None"
  shows "tool_risk name = (if name \<in> set object_prototype_names then Inherited else Ask)"
  using assms by (simp add: tool_risk_def tool_risk_get_def)

text \<open>
  Claim C9. The lookup gives \<open>safe\<close> for \<open>read_file\<close>, \<open>list_directory\<close>,
  \<open>search_files\<close> and \<open>get_project_info\<close>, \<open>ask\<close> for \<open>write_file\<close> and
  \<open>edit_file\<close>, \<open>danger\<close> for \<open>run_command\<close>, and \<open>ask\<close> for the unregistered name
  \<open>deploy\<close>. It does not give \<open>ask\<close> for the unregistered name \<open>constructor\<close>:
  \<open>TOOL_RISK['constructor']\<close> reads the property every object inherits, the function
  \<open>Object\<close>, which is truthy, so that the default after \<open>||\<close> is not taken. The
  default that \<open>|| 'ask'\<close> is there to give is missed for such names.
\<close>

theorem tool_risk_inherited_name:
  "tool_risk ''read_file'' = Safe \<and> tool_risk ''list_directory'' = Safe \<and>
   tool_risk ''search_files'' = Safe \<and> tool_risk ''get_project_info'' = Safe \<and>
   tool_risk ''write_file'' = Ask \<and> tool_risk ''edit_file'' = Ask \<and>
   tool_risk ''run_command'' = Danger \<and>
   map_of TOOL_RISK ''deploy'' = None \<and> tool_risk ''deploy'' = Ask \<and>
   map_of TOOL_RISK ''constructor'' = None \<and> tool_risk ''constructor'' = Inherited \<and>
   tool_risk ''constructor'' \<noteq> Ask"
  by (simp add: tool_risk_def tool_risk_get_def TOOL_RISK_def object_prototype_names_def)

section \<open>Properties of the permission gate\<close>

lemma log_emit [simp]: "log (emit evs s) = log s @ evs"
  and messages_emit [simp]: "messages (emit evs s) = messages s"
  and world_emit [simp]: "world (emit evs s) = world s"
  by (simp_all add: emit_def)

text \<open>
  The answer the gate works with for the next question: the line the human types,
  lower-cased and trimmed.
\<close>

definition gate_answer :: "'w env \<Rightarrow> 'w state \<Rightarrow> string" where
  "gate_answer E s = trim (toLowerCase (human E (length (filter is_prompt (log s)))))"

lemma preview_events:
  "filter is_prompt (fst (preview n a)) = []"
  "filter is_executed (fst (preview n a)) = []"
  "filter is_model_call (fst (preview n a)) = []"
  by (simp_all add: preview_def)

lemma try_auto:
  assumes "autoApprove \<or> tool_risk (tc_name tc) = Safe"
  shows "handleToolCall_try E tc d autoApprove s = run_tool E (tc_name tc) (tc_args tc) d (emit [ToolBanner (tc_name tc)] s)"
  using assms by (auto simp: handleToolCall_try_def Let_def)

lemma try_gated:
  assumes "\<not> autoApprove" "tool_risk (tc_name tc) \<noteq> Safe"
  shows "handleToolCall_try E tc d autoApprove s =
    (case preview (tc_name tc) (tc_args tc) of
       (shown, Some msg) \<Rightarrow> (Inl msg, emit (ToolBanner (tc_name tc) # shown) s)
     | (shown, None) \<Rightarrow>
        (let s2 = emit (ToolBanner (tc_name tc) # shown @ [Prompt (tool_risk (tc_name tc))]) s; answer = gate_answer E s in
         if answer = ''n'' \<or> answer = ''no'' then (Inr ''Operation denied by user.'', s2)
         else if answer = ''skip'' \<or> answer = ''s'' then (Inr ''Operation skipped by user.'', s2)
         else run_tool E (tc_name tc) (tc_args tc) d s2))"
proof (cases "preview (tc_name tc) (tc_args tc)")
  case (Pair shown x)
  have np: "filter is_prompt shown = []"
    using preview_events(1) [of "tc_name tc" "tc_args tc"] Pair by simp
  show ?thesis
    using assms Pair np
    by (cases x) (simp_all add: handleToolCall_try_def Let_def askPermission_def gate_answer_def emit_def)
qed

lemma handleToolCall_direct:
  assumes "autoApprove \<or> tool_risk (tc_name tc) = Safe"
  shows "handleToolCall E tc d autoApprove s =
    (case executeTool E (tc_name tc) (tc_args tc) d (world s) of
       (Inl msg, w') \<Rightarrow>
         (''Error executing tool: '' @ msg,
          (emit [ToolBanner (tc_name tc), Executed (tc_name tc), ToolError msg] s)\<lparr>world := w'\<rparr>)
     | (Inr out, w') \<Rightarrow>
         (if out = [] then ''(no output)'' else out,
          (emit [ToolBanner (tc_name tc), Executed (tc_name tc)] s)\<lparr>world := w'\<rparr>))"
  by (simp add: handleToolCall_def try_auto [OF assms] run_tool_def Let_def emit_def
           split: prod.splits sum.splits)

lemma handleToolCall_gated:
  assumes "\<not> autoApprove" "tool_risk (tc_name tc) \<noteq> Safe"
  shows "handleToolCall E tc d autoApprove s =
    (case preview (tc_name tc) (tc_args tc) of
       (shown, Some msg) \<Rightarrow>
         (''Error executing tool: '' @ msg, emit (ToolBanner (tc_name tc) # shown @ [ToolError msg]) s)
     | (shown, None) \<Rightarrow>
        (let asked = ToolBanner (tc_name tc) # shown @ [Prompt (tool_risk (tc_name tc))];
             answer = gate_answer E s in
         if answer = ''n'' \<or> answer = ''no'' then (''Operation denied by user.'', emit asked s)
         else if answer = ''skip'' \<or> answer = ''s'' then (''Operation skipped by user.'', emit asked s)
         else
           (case executeTool E (tc_name tc) (tc_args tc) d (world s) of
              (Inl msg, w') \<Rightarrow>
                (''Error executing tool: '' @ msg,
                 (emit (asked @ [Executed (tc_name tc), ToolError msg]) s)\<lparr>world := w'\<rparr>)
            | (Inr out, w') \<Rightarrow>
                (if out = [] then ''(no output)'' else out,
                 (emit (asked @ [Executed (tc_name tc)]) s)\<lparr>world := w'\<rparr>))))"
  by (simp add: handleToolCall_def try_gated [OF assms] run_tool_def Let_def emit_def
           split: prod.splits sum.splits option.splits)

lemma handleToolCall_messages:
  "handleToolCall E tc d autoApprove s = (r, s') \<Longrightarrow> messages s' = messages s"
  by (cases "autoApprove \<or> tool_risk (tc_name tc) = Safe")
     (auto simp: handleToolCall_direct handleToolCall_gated Let_def
           split: prod.splits sum.splits option.splits if_splits)


lemma prompt_precedes:
  assumes "A @ Prompt r # B = pre @ Executed n # post" "filter is_executed A = []"
  shows "list_ex is_prompt pre"
proof -
  from assms(1) obtain us where
    "(A = pre @ us \<and> us @ Prompt r # B = Executed n # post) \<or>
     (A @ us = pre \<and> Prompt r # B = us @ Executed n # post)"
    by (auto simp: append_eq_append_conv2)
  then show ?thesis
  proof
    assume h: "A = pre @ us \<and> us @ Prompt r # B = Executed n # post"
    then have "us \<noteq> []" by auto
    then obtain u us' where "us = u # us'" by (cases us) auto
    with h have "Executed n \<in> set A" by auto
    then have "Executed n \<in> set (filter is_executed A)" by simp
    with assms(2) show ?thesis by simp
  next
    assume h: "A @ us = pre \<and> Prompt r # B = us @ Executed n # post"
    then have "us \<noteq> []" by auto
    then obtain u us' where "us = u # us'" by (cases us) auto
    with h have "Prompt r \<in> set pre" by auto
    then show ?thesis by (force simp: list_ex_iff)
  qed
qed

lemma new_events_emit [simp]:
  "new_events s (emit evs s) = evs"
  "new_events s ((emit evs s)\<lparr>world := w\<rparr>) = evs"
  by (simp_all add: new_events_def)

fun is_final_text :: "event \<Rightarrow> bool" where
  "is_final_text (FinalText t) = True"
| "is_final_text e = False"

text \<open>
  Claim C2. For a tool call whose risk is not \<open>safe\<close> (\<open>ask\<close>, \<open>danger\<close>, or an
  inherited value): with auto-approve off, every call of \<open>executeTool\<close> among the
  events of \<open>handleToolCall\<close> comes after a permission question has been asked and
  answered, and when the answer is \<open>n\<close>, \<open>no\<close>, \<open>skip\<close> or \<open>s\<close> the executor is not
  called at all and the world is unchanged; with auto-approve on, no preview is shown
  and no question is asked: the executor is called right after the banner, and the only
  event that may follow is the report of an exception it throws.
\<close>

theorem handleToolCall_permission_gate:
  assumes "tool_risk (tc_name tc) \<noteq> Safe"
    and "handleToolCall E tc projectDir autoApprove s = (result, s')"
  shows "(\<not> autoApprove \<longrightarrow>
            (\<forall>pre post n. new_events s s' = pre @ Executed n # post \<longrightarrow> list_ex is_prompt pre) \<and>
            (gate_answer E s \<in> {''n'', ''no'', ''skip'', ''s''} \<longrightarrow>
               \<not> list_ex is_executed (new_events s s') \<and> world s' = world s)) \<and>
         (autoApprove \<longrightarrow>
            new_events s s' =
              [ToolBanner (tc_name tc), Executed (tc_name tc)]
                @ (case fst (executeTool E (tc_name tc) (tc_args tc) projectDir (world s)) of
                     Inl msg \<Rightarrow> [ToolError msg]
                   | Inr out \<Rightarrow> []))"
proof (cases autoApprove)
  case True
  then show ?thesis
    using assms(2)
    by (auto simp: handleToolCall_direct split: prod.splits sum.splits)
next
  case False
  obtain shown x where pv: "preview (tc_name tc) (tc_args tc) = (shown, x)"
    by (cases "preview (tc_name tc) (tc_args tc)")
  have ne: "filter is_executed shown = []" "filter is_prompt shown = []"
    using preview_events [of "tc_name tc" "tc_args tc"] pv by simp_all
  have ne': "filter is_executed (ToolBanner (tc_name tc) # shown) = []"
    using ne by simp
  have nex: "\<not> list_ex is_executed shown"
    using ne(1) by (simp add: list_ex_iff filter_empty_conv)
  have a: "\<forall>pre post n. new_events s s' = pre @ Executed n # post \<longrightarrow> list_ex is_prompt pre"
  proof (intro allI impI)
    fix pre post n
    assume d: "new_events s s' = pre @ Executed n # post"
    show "list_ex is_prompt pre"
    proof (cases x)
      case (Some msg)
      with assms False pv have "new_events s s' = ToolBanner (tc_name tc) # shown @ [ToolError msg]"
        by (auto simp: handleToolCall_gated)
      with d have "Executed n \<in> set (ToolBanner (tc_name tc) # shown @ [ToolError msg])"
        by (metis in_set_conv_decomp)
      with nex show ?thesis by (auto simp: list_ex_iff)
    next
      case None
      with assms False pv obtain B where
        "new_events s s' = (ToolBanner (tc_name tc) # shown) @ Prompt (tool_risk (tc_name tc)) # B"
        by (auto simp: handleToolCall_gated Let_def split: if_splits prod.splits sum.splits)
      with d show ?thesis using prompt_precedes [OF _ ne'] by metis
    qed
  qed
  have b: "gate_answer E s \<in> {''n'', ''no'', ''skip'', ''s''} \<longrightarrow>
               \<not> list_ex is_executed (new_events s s') \<and> world s' = world s"
    using assms False pv nex
    by (cases x) (auto simp: handleToolCall_gated Let_def list_ex_iff)
  from a b False show ?thesis by blast
qed

lemma dispatch_single:
  "dispatch E d autoApprove [tc] s =
     (case handleToolCall E tc d autoApprove s of
        (result, s') \<Rightarrow> s'\<lparr>messages := messages s' @ [ToolMsg (tc_id tc) result]\<rparr>)"
  by (simp split: prod.splits)

text \<open>
  Claim C5. When the permission question is reached (risk not \<open>safe\<close>, auto-approve
  off, previews shown without an exception), exactly one question is asked, and the
  line typed, lower-cased and trimmed, decides: \<open>n\<close> or \<open>no\<close> gives exactly
  \<open>Operation denied by user.\<close>, \<open>skip\<close> or \<open>s\<close> gives exactly
  \<open>Operation skipped by user.\<close>, both without calling the executor; every other
  line (the empty one, \<open>y\<close>, \<open>yes\<close>, anything else) calls the executor once. The
  result is pushed to the history as the tool turn of the call.
\<close>

theorem permission_decision:
  assumes "tool_risk (tc_name tc) \<noteq> Safe" and "\<not> autoApprove"
    and "snd (preview (tc_name tc) (tc_args tc)) = None"
    and "human E (length (filter is_prompt (log s))) = line"
    and "handleToolCall E tc projectDir autoApprove s = (result, s')"
    and "answer = trim (toLowerCase line)"
  shows "filter is_prompt (new_events s s') = [Prompt (tool_risk (tc_name tc))] \<and>
         (answer = ''n'' \<or> answer = ''no'' \<longrightarrow>
            result = ''Operation denied by user.'' \<and>
            \<not> list_ex is_executed (new_events s s') \<and> world s' = world s) \<and>
         (answer = ''skip'' \<or> answer = ''s'' \<longrightarrow>
            result = ''Operation skipped by user.'' \<and>
            \<not> list_ex is_executed (new_events s s') \<and> world s' = world s) \<and>
         (answer \<notin> {''n'', ''no'', ''skip'', ''s''} \<longrightarrow>
            filter is_executed (new_events s s') = [Executed (tc_name tc)] \<and>
            world s' = snd (executeTool E (tc_name tc) (tc_args tc) projectDir (world s))) \<and>
         messages (dispatch E projectDir autoApprove [tc] s) = messages s @ [ToolMsg (tc_id tc) result]"
proof -
  obtain shown where pv: "preview (tc_name tc) (tc_args tc) = (shown, None)"
    using assms(3) by (cases "preview (tc_name tc) (tc_args tc)") auto
  have ne: "filter is_executed shown = []" "filter is_prompt shown = []"
    using preview_events [of "tc_name tc" "tc_args tc"] pv by simp_all
  have nex: "\<not> list_ex is_executed shown"
    using ne(1) by (simp add: list_ex_iff filter_empty_conv)
  have ga: "gate_answer E s = answer"
    using assms(4,6) by (simp add: gate_answer_def)
  have m: "messages s' = messages s"
    using assms(5) by (rule handleToolCall_messages)
  have 1: "filter is_prompt (new_events s s') = [Prompt (tool_risk (tc_name tc))]"
    using assms(1,2,5) pv ne ga
    by (auto simp: handleToolCall_gated Let_def split: if_splits prod.splits sum.splits)
  have 2: "answer = ''n'' \<or> answer = ''no'' \<longrightarrow>
            result = ''Operation denied by user.'' \<and>
            \<not> list_ex is_executed (new_events s s') \<and> world s' = world s"
    using assms(1,2,5) pv nex ga
    by (auto simp: handleToolCall_gated Let_def list_ex_iff)
  have 3: "answer = ''skip'' \<or> answer = ''s'' \<longrightarrow>
            result = ''Operation skipped by user.'' \<and>
            \<not> list_ex is_executed (new_events s s') \<and> world s' = world s"
    using assms(1,2,5) pv nex ga
    by (auto simp: handleToolCall_gated Let_def list_ex_iff)
  have 4: "answer \<notin> {''n'', ''no'', ''skip'', ''s''} \<longrightarrow>
            filter is_executed (new_events s s') = [Executed (tc_name tc)] \<and>
            world s' = snd (executeTool E (tc_name tc) (tc_args tc) projectDir (world s))"
    using assms(1,2,5) pv ne ga
    by (auto simp: handleToolCall_gated Let_def split: prod.splits sum.splits)
  have 5: "messages (dispatch E projectDir autoApprove [tc] s) = messages s @ [ToolMsg (tc_id tc) result]"
    using assms(5) m by (simp add: dispatch_single)
  from 1 2 3 4 5 show ?thesis by blast
qed



lemma eval_answer:
  "trim (toLowerCase '' No '') = ''no''" "trim (toLowerCase ''SKIP'') = ''skip''"
  "trim (toLowerCase ''sure'') = ''sure''" "trim (toLowerCase []) = []"
  by (simp_all add: trim_def toLowerCase_def lower_char_def is_space_def char_of_def bit_Suc_0_iff)

theorem handleToolCall_permission_gate_witness:
  "tool_risk ''run_command'' \<noteq> Safe \<and>
   gate_answer (stub_env (\<lambda>k h. Inr RNull) ['' No '']) (init_state []) \<in> {''n'', ''no'', ''skip'', ''s''} \<and>
   \<not> list_ex is_executed (new_events (init_state [])
      (snd (handleToolCall (stub_env (\<lambda>k h. Inr RNull) ['' No ''])
         (call_of ''c1'' ''run_command'' [(''command'', JStr ''rm -rf build'')]) ''/proj'' False (init_state [])))) \<and>
   new_events (init_state [])
      (snd (handleToolCall (stub_env (\<lambda>k h. Inr RNull) ['' No ''])
         (call_of ''c1'' ''run_command'' [(''command'', JStr ''rm -rf build'')]) ''/proj'' True (init_state [])))
     = [ToolBanner ''run_command'', Executed ''run_command'']"
proof -
  let ?E = "stub_env (\<lambda>k h. Inr RNull) ['' No '']"
  let ?tc = "call_of ''c1'' ''run_command'' [(''command'', JStr ''rm -rf build'')]"
  have r: "tool_risk (tc_name ?tc) \<noteq> Safe"
    by (simp add: call_of_def tool_risk_registered)
  have g: "gate_answer ?E (init_state []) = ''no''"
    by (simp add: gate_answer_def stub_env_def init_state_def eval_answer)
  note off = handleToolCall_permission_gate [OF r, of ?E "''/proj''" False "init_state []"
      "fst (handleToolCall ?E ?tc ''/proj'' False (init_state []))"
      "snd (handleToolCall ?E ?tc ''/proj'' False (init_state []))"]
  note on = handleToolCall_permission_gate [OF r, of ?E "''/proj''" True "init_state []"
      "fst (handleToolCall ?E ?tc ''/proj'' True (init_state []))"
      "snd (handleToolCall ?E ?tc ''/proj'' True (init_state []))"]
  from off g have 1: "\<not> list_ex is_executed (new_events (init_state [])
      (snd (handleToolCall ?E ?tc ''/proj'' False (init_state []))))"
    by simp
  from on have 2: "new_events (init_state [])
      (snd (handleToolCall ?E ?tc ''/proj'' True (init_state [])))
     = [ToolBanner ''run_command'', Executed ''run_command'']"
    by (simp add: call_of_def stub_env_def)
  from r g 1 2 show ?thesis by (simp add: call_of_def)
qed

lemma eval_preview_edit:
  "preview ''edit_file'' (args_of [(''path'', JStr ''a.txt''), (''target'', JStr ''foo''), (''replacement'', JStr ''bar'')])
     = ([EditPreviewTarget, EditPreviewReplacement], None)"
  by (simp add: preview_def args_of_def)

theorem permission_decision_witness:
  "fst (handleToolCall (stub_env (\<lambda>k h. Inr RNull) ['' No ''])
      (call_of ''c1'' ''edit_file'' [(''path'', JStr ''a.txt''), (''target'', JStr ''foo''), (''replacement'', JStr ''bar'')])
      ''/proj'' False (init_state [])) = ''Operation denied by user.'' \<and>
   fst (handleToolCall (stub_env (\<lambda>k h. Inr RNull) [''SKIP''])
      (call_of ''c1'' ''edit_file'' [(''path'', JStr ''a.txt''), (''target'', JStr ''foo''), (''replacement'', JStr ''bar'')])
      ''/proj'' False (init_state [])) = ''Operation skipped by user.'' \<and>
   filter is_executed (new_events (init_state [])
     (snd (handleToolCall (stub_env (\<lambda>k h. Inr RNull) [''sure''])
      (call_of ''c1'' ''edit_file'' [(''path'', JStr ''a.txt''), (''target'', JStr ''foo''), (''replacement'', JStr ''bar'')])
      ''/proj'' False (init_state [])))) = [Executed ''edit_file''] \<and>
   messages (dispatch (stub_env (\<lambda>k h. Inr RNull) ['' No '']) ''/proj'' False
      [call_of ''c1'' ''edit_file'' [(''path'', JStr ''a.txt''), (''target'', JStr ''foo''), (''replacement'', JStr ''bar'')]]
      (init_state [])) = [ToolMsg ''c1'' ''Operation denied by user.'']"
proof -
  let ?tc = "call_of ''c1'' ''edit_file'' [(''path'', JStr ''a.txt''), (''target'', JStr ''foo''), (''replacement'', JStr ''bar'')]"
  let ?E = "\<lambda>line. stub_env (\<lambda>k h. Inr RNull) [line]"
  let ?s = "init_state [] :: nat state"
  have r: "tool_risk (tc_name ?tc) \<noteq> Safe"
    by (simp add: call_of_def tool_risk_registered)
  have p: "snd (preview (tc_name ?tc) (tc_args ?tc)) = None"
    by (simp add: call_of_def eval_preview_edit)
  have h: "human (?E line) (length (filter is_prompt (log ?s))) = line" for line
    by (simp add: stub_env_def init_state_def)
  have c: "handleToolCall (?E line) ?tc ''/proj'' False ?s =
             (fst (handleToolCall (?E line) ?tc ''/proj'' False ?s),
              snd (handleToolCall (?E line) ?tc ''/proj'' False ?s))" for line
    by simp
  note t = permission_decision [OF r _ p h c refl]
  from t [of "'' No ''"] have 1:
    "fst (handleToolCall (?E '' No '') ?tc ''/proj'' False ?s) = ''Operation denied by user.''"
    "messages (dispatch (?E '' No '') ''/proj'' False [?tc] ?s) = [ToolMsg ''c1'' ''Operation denied by user.'']"
    by (simp_all add: eval_answer init_state_def call_of_def)
  from t [of "''SKIP''"] have 2:
    "fst (handleToolCall (?E ''SKIP'') ?tc ''/proj'' False ?s) = ''Operation skipped by user.''"
    by (simp add: eval_answer)
  from t [of "''sure''"] have 3:
    "filter is_executed (new_events ?s (snd (handleToolCall (?E ''sure'') ?tc ''/proj'' False ?s)))
       = [Executed ''edit_file'']"
    by (simp add: eval_answer call_of_def)
  from 1 2 3 show ?thesis by simp
qed


section \<open>Properties of the agent loop\<close>

lemma preview_no_error: "filter is_error_shown (fst (preview n a)) = []"
  by (simp add: preview_def)

lemma handleToolCall_log:
  "handleToolCall E tc d autoApprove s = (r, s') \<Longrightarrow>
   \<exists>evs. log s' = log s @ evs \<and> filter is_model_call evs = [] \<and> filter is_error_shown evs = []"
  using preview_events(3) [of "tc_name tc" "tc_args tc"] preview_no_error [of "tc_name tc" "tc_args tc"]
  by (cases "autoApprove \<or> tool_risk (tc_name tc) = Safe")
     (auto simp: handleToolCall_direct handleToolCall_gated Let_def
           split: prod.splits sum.splits option.splits if_splits)

lemma dispatch_log:
  "\<exists>evs. log (dispatch E d autoApprove tcs s) = log s @ evs \<and>
         filter is_model_call evs = [] \<and> filter is_error_shown evs = []"
proof (induction tcs arbitrary: s)
  case Nil
  then show ?case by simp
next
  case (Cons tc tcs)
  obtain r s' where h: "handleToolCall E tc d autoApprove s = (r, s')"
    by (cases "handleToolCall E tc d autoApprove s")
  from handleToolCall_log [OF h] obtain e1 where
    e1: "log s' = log s @ e1" "filter is_model_call e1 = []" "filter is_error_shown e1 = []"
    by blast
  let ?s = "s'\<lparr>messages := messages s' @ [ToolMsg (tc_id tc) r]\<rparr>"
  from Cons.IH [of ?s] obtain e2 where
    e2: "log (dispatch E d autoApprove tcs ?s) = log ?s @ e2"
        "filter is_model_call e2 = []" "filter is_error_shown e2 = []"
    by blast
  have "log (dispatch E d autoApprove (tc # tcs) s) = log s @ (e1 @ e2)"
    using h e1(1) e2(1) by simp
  moreover have "filter is_model_call (e1 @ e2) = []" using e1 e2 by simp
  moreover have "filter is_error_shown (e1 @ e2) = []" using e1 e2 by simp
  ultimately show ?case by blast
qed

lemma on_error_log:
  "on_error m s = (f, s') \<Longrightarrow> \<exists>evs. log s' = log s @ evs \<and> filter is_model_call evs = []"
  by (auto simp: on_error_def split: if_splits)

lemma loop_body_log:
  assumes "loop_body E d autoApprove s = (f, s')"
  shows "\<exists>evs. log s' = log s @ ModelCall # evs \<and> filter is_model_call evs = []"
proof (cases "chat E (length (filter is_model_call (log s))) (messages s)")
  case (Inl m)
  with assms on_error_log [of m "emit [ModelCall] s" f s'] show ?thesis
    by (auto simp: loop_body_def Let_def)
next
  case (Inr response)
  show ?thesis
  proof (cases "normalizeToolCalls (json_parse E) (response_message response)")
    case (Inl m)
    with Inr assms on_error_log [of m "emit [ModelCall] s" f s'] show ?thesis
      by (auto simp: loop_body_def Let_def)
  next
    case (Inr toolCalls)
    define s3 where "s3 = note_reply E response toolCalls (emit [ModelCall] s)"
    have l3: "\<exists>e. log s3 = log s @ ModelCall # e \<and> filter is_model_call e = []"
      by (auto simp: s3_def note_reply_def Let_def split: option.splits)
    then obtain e where e: "log s3 = log s @ ModelCall # e" "filter is_model_call e = []" by blast
    from dispatch_log [of E d autoApprove toolCalls s3] obtain e' where
      e': "log (dispatch E d autoApprove toolCalls s3) = log s3 @ e'" "filter is_model_call e' = []"
      by blast
    have s': "s' = (if toolCalls \<noteq> [] then dispatch E d autoApprove toolCalls s3
                   else if trim (extractText response) \<noteq> [] then emit [FinalText (extractText response)] s3
                   else s3)"
      using assms \<open>chat E _ _ = Inr response\<close> Inr
      by (auto simp: loop_body_def Let_def s3_def split: if_splits)
    show ?thesis
    proof (cases "toolCalls \<noteq> []")
      case True
      with s' e e' have "log s' = log s @ ModelCall # (e @ e')" by simp
      moreover have "filter is_model_call (e @ e') = []" using e e' by simp
      ultimately show ?thesis by blast
    next
      case False
      with s' e have "log s' = log s @ ModelCall # (e @ (if trim (extractText response) \<noteq> [] then [FinalText (extractText response)] else []))"
        by simp
      moreover have "filter is_model_call (e @ (if trim (extractText response) \<noteq> [] then [FinalText (extractText response)] else [])) = []"
        using e by simp
      ultimately show ?thesis by blast
    qed
  qed
qed

lemma while_loop_calls:
  "while_loop E d autoApprove maxIterations iterations s = (i', s') \<Longrightarrow>
   \<exists>evs. log s' = log s @ evs \<and> length (filter is_model_call evs) = i' - iterations \<and>
         iterations \<le> i' \<and> i' \<le> max iterations maxIterations"
proof (induction E d autoApprove maxIterations iterations s arbitrary: i' s' rule: while_loop.induct)
  case (1 E d autoApprove maxIterations iterations s)
  show ?case
  proof (cases "iterations < maxIterations")
    case False
    with "1.prems" show ?thesis by (simp add: while_loop.simps)
  next
    case True
    obtain f s1 where b: "loop_body E d autoApprove s = (f, s1)"
      by (cases "loop_body E d autoApprove s")
    from loop_body_log [OF b] obtain e1 where
      e1: "log s1 = log s @ ModelCall # e1" "filter is_model_call e1 = []" by blast
    show ?thesis
    proof (cases f)
      case Break
      with True b "1.prems" have "i' = Suc iterations" "s' = s1"
        by (simp_all add: while_loop.simps)
      with e1 True show ?thesis by auto
    next
      case NextIteration
      with True b "1.prems" have
        r: "while_loop E d autoApprove maxIterations (Suc iterations) s1 = (i', s')"
        by (simp add: while_loop.simps)
      from "1.IH" [OF True b [symmetric] NextIteration r] obtain e2 where
        e2: "log s' = log s1 @ e2" "length (filter is_model_call e2) = i' - Suc iterations"
            "Suc iterations \<le> i'" "i' \<le> max (Suc iterations) maxIterations"
        by blast
      have "log s' = log s @ (ModelCall # e1 @ e2)" using e1 e2 by simp
      moreover have "length (filter is_model_call (ModelCall # e1 @ e2)) = i' - iterations"
        using e1 e2 by simp
      moreover have "iterations \<le> i'" "i' \<le> max iterations maxIterations"
        using e2 True by auto
      ultimately show ?thesis by blast
    qed
  qed
qed

lemma loop_body_tool_request:
  assumes "chat E (length (filter is_model_call (log s))) (messages s) = Inr r"
    and "normalizeToolCalls (json_parse E) (response_message r) = Inr tcs" and "tcs \<noteq> []"
  shows "\<exists>s'. loop_body E d autoApprove s = (NextIteration, s') \<and>
              filter is_error_shown (new_events s s') = []"
proof -
  let ?s3 = "note_reply E r tcs (emit [ModelCall] s)"
  have b: "loop_body E d autoApprove s = (NextIteration, dispatch E d autoApprove tcs ?s3)"
    using assms by (simp add: loop_body_def Let_def)
  have l3: "\<exists>e. log ?s3 = log s @ e \<and> filter is_error_shown e = []"
    by (auto simp: note_reply_def Let_def split: option.splits)
  then obtain e where e: "log ?s3 = log s @ e" "filter is_error_shown e = []" by blast
  from dispatch_log [of E d autoApprove tcs ?s3] obtain e' where
    e': "log (dispatch E d autoApprove tcs ?s3) = log ?s3 @ e'" "filter is_error_shown e' = []"
    by blast
  have "new_events s (dispatch E d autoApprove tcs ?s3) = e @ e'"
    using e e' by (simp add: new_events_def)
  with b e e' show ?thesis by simp
qed

lemma while_loop_tool_requests:
  "while_loop E d autoApprove maxIterations iterations s = (i', s') \<Longrightarrow>
   \<forall>k h. \<exists>r tcs. chat E k h = Inr r \<and>
                normalizeToolCalls (json_parse E) (response_message r) = Inr tcs \<and> tcs \<noteq> [] \<Longrightarrow>
   i' = max iterations maxIterations \<and> filter is_error_shown (new_events s s') = []"
proof (induction E d autoApprove maxIterations iterations s arbitrary: i' s' rule: while_loop.induct)
  case (1 E d autoApprove maxIterations iterations s)
  show ?case
  proof (cases "iterations < maxIterations")
    case False
    with "1.prems"(1) show ?thesis by (simp add: while_loop.simps new_events_def)
  next
    case True
    from "1.prems"(2) obtain r tcs where
      c: "chat E (length (filter is_model_call (log s))) (messages s) = Inr r"
         "normalizeToolCalls (json_parse E) (response_message r) = Inr tcs" "tcs \<noteq> []"
      by blast
    from loop_body_tool_request [OF c] obtain s1 where
      b: "loop_body E d autoApprove s = (NextIteration, s1)"
         "filter is_error_shown (new_events s s1) = []"
      by blast
    from loop_body_log [OF b(1)] obtain e1 where e1: "log s1 = log s @ ModelCall # e1" by blast
    from True b "1.prems"(1) have
      r: "while_loop E d autoApprove maxIterations (Suc iterations) s1 = (i', s')"
      by (simp add: while_loop.simps)
    from "1.IH" [OF True b(1) [symmetric] _ r "1.prems"(2)] have
      ih: "i' = max (Suc iterations) maxIterations" "filter is_error_shown (new_events s1 s') = []"
      by simp_all
    from while_loop_calls [OF r] obtain e2 where e2: "log s' = log s1 @ e2" by blast
    have "new_events s s' = new_events s s1 @ new_events s1 s'"
      using e1 e2 by (simp add: new_events_def)
    with b(2) ih True show ?thesis by simp
  qed
qed

text \<open>
  Claim C6. \<open>runAgentLoop\<close> is a total function (the \<open>while\<close> loop terminates
  because \<open>iterations\<close> grows in every pass), and it calls the model at most
  \<open>maxIterations\<close> times, for every \<open>maxIterations\<close>. When every reply of the model
  requests a tool call, it calls the model exactly \<open>maxIterations\<close> times, then prints
  the max-iterations warning as its last output, and shows no error.
\<close>

theorem agent_loop_bounded:
  "length (filter is_model_call (new_events s (runAgentLoop E projectDir autoApprove maxIterations s)))
     \<le> maxIterations \<and>
   ((\<forall>k h. \<exists>r tcs. chat E k h = Inr r \<and>
        normalizeToolCalls (json_parse E) (response_message r) = Inr tcs \<and> tcs \<noteq> []) \<longrightarrow>
      length (filter is_model_call (new_events s (runAgentLoop E projectDir autoApprove maxIterations s)))
        = maxIterations \<and>
      last (log (runAgentLoop E projectDir autoApprove maxIterations s)) = MaxIterWarning maxIterations \<and>
      filter is_error_shown (new_events s (runAgentLoop E projectDir autoApprove maxIterations s)) = [])"
proof -
  obtain i' s' where w: "while_loop E projectDir autoApprove maxIterations 0 s = (i', s')"
    by (cases "while_loop E projectDir autoApprove maxIterations 0 s")
  from while_loop_calls [OF w] obtain evs where
    evs: "log s' = log s @ evs" "length (filter is_model_call evs) = i'" "i' \<le> maxIterations"
    by auto
  have run: "runAgentLoop E projectDir autoApprove maxIterations s =
               (if i' \<ge> maxIterations then emit [MaxIterWarning maxIterations] s' else s')"
    using w by (simp add: runAgentLoop_def)
  have ne: "new_events s (runAgentLoop E projectDir autoApprove maxIterations s) =
              evs @ (if i' \<ge> maxIterations then [MaxIterWarning maxIterations] else [])"
    using run evs(1) by (simp add: new_events_def)
  have 1: "length (filter is_model_call (new_events s (runAgentLoop E projectDir autoApprove maxIterations s)))
     \<le> maxIterations"
    using ne evs by simp
  have 2: "length (filter is_model_call (new_events s (runAgentLoop E projectDir autoApprove maxIterations s)))
        = maxIterations \<and>
      last (log (runAgentLoop E projectDir autoApprove maxIterations s)) = MaxIterWarning maxIterations \<and>
      filter is_error_shown (new_events s (runAgentLoop E projectDir autoApprove maxIterations s)) = []"
    if H: "\<forall>k h. \<exists>r tcs. chat E k h = Inr r \<and>
        normalizeToolCalls (json_parse E) (response_message r) = Inr tcs \<and> tcs \<noteq> []"
  proof -
    from while_loop_tool_requests [OF w H] have
      t: "i' = maxIterations" "filter is_error_shown (new_events s s') = []" by simp_all
    have "new_events s s' = evs" using evs(1) by (simp add: new_events_def)
    with t ne run evs show ?thesis by simp
  qed
  from 1 2 show ?thesis by blast
qed

theorem agent_loop_bounded_witness:
  "length (filter is_model_call (new_events (init_state [UserMsg ''list the files''])
      (runAgentLoop (stub_env (\<lambda>k h. Inr tool_request_reply) []) ''/proj'' False 3
         (init_state [UserMsg ''list the files'']))))
     = 3 \<and>
   last (log (runAgentLoop (stub_env (\<lambda>k h. Inr tool_request_reply) []) ''/proj'' False 3
         (init_state [UserMsg ''list the files'']))) = MaxIterWarning 3 \<and>
   filter is_error_shown (new_events (init_state [UserMsg ''list the files''])
      (runAgentLoop (stub_env (\<lambda>k h. Inr tool_request_reply) []) ''/proj'' False 3
         (init_state [UserMsg ''list the files'']))) = []"
proof -
  let ?E = "stub_env (\<lambda>k h. Inr tool_request_reply) []"
  have H: "\<forall>k h. \<exists>r tcs. chat ?E k h = Inr r \<and>
        normalizeToolCalls (json_parse ?E) (response_message r) = Inr tcs \<and> tcs \<noteq> []"
    by (simp add: stub_env_def tool_request_reply_def normalizeToolCalls_def parse_input_def)
  from agent_loop_bounded [of "init_state [UserMsg ''list the files'']" ?E "''/proj''" False 3] H
  show ?thesis by blast
qed

text \<open>
  A reply without tool calls does not end the loop: the branch that prints the final
  text has no \<open>break\<close>, so the body ends normally and the loop goes on.
\<close>

lemma loop_body_final_answer:
  assumes "chat E (length (filter is_model_call (log s))) (messages s) = Inr r"
    and "normalizeToolCalls (json_parse E) (response_message r) = Inr []"
  shows "fst (loop_body E d autoApprove s) = NextIteration"
  using assms by (simp add: loop_body_def Let_def)

text \<open>
  Claim C1 asks that a reply without tool calls stop the loop. The scenario of the
  specification: the model first requests \<open>read_file\<close>, and from then on answers with
  the final text and no tool call. With the default \<open>maxIterations = 25\<close> the code
  calls the model 25 times instead of twice, prints the final text 24 times, pushes 24
  further assistant turns (27 messages from one), calls the executor once, and ends
  with the max-iterations warning.
\<close>

theorem final_answer_does_not_stop:
  "length (filter is_model_call (log
      (runAgentLoop (stub_env (\<lambda>k h. if k = 0 then Inr tool_request_reply else Inr final_reply) [])
         ''/proj'' False 25 (init_state [UserMsg ''add error handling''])))) = 25 \<and>
   length (filter is_final_text (log
      (runAgentLoop (stub_env (\<lambda>k h. if k = 0 then Inr tool_request_reply else Inr final_reply) [])
         ''/proj'' False 25 (init_state [UserMsg ''add error handling''])))) = 24 \<and>
   length (filter is_executed (log
      (runAgentLoop (stub_env (\<lambda>k h. if k = 0 then Inr tool_request_reply else Inr final_reply) [])
         ''/proj'' False 25 (init_state [UserMsg ''add error handling''])))) = 1 \<and>
   length (messages
      (runAgentLoop (stub_env (\<lambda>k h. if k = 0 then Inr tool_request_reply else Inr final_reply) [])
         ''/proj'' False 25 (init_state [UserMsg ''add error handling'']))) = 27 \<and>
   last (log
      (runAgentLoop (stub_env (\<lambda>k h. if k = 0 then Inr tool_request_reply else Inr final_reply) [])
         ''/proj'' False 25 (init_state [UserMsg ''add error handling'']))) = MaxIterWarning 25"
  by code_simp

section \<open>Properties of edit_file\<close>

lemma startsWith_iff: "startsWith s p \<longleftrightarrow> (\<exists>v. s = p @ v)"
  by (induction s p rule: startsWith.induct) auto

lemma str_includes_iff: "str_includes s t \<longleftrightarrow> (\<exists>u v. s = u @ t @ v)"
proof (induction s)
  case Nil
  then show ?case by auto
next
  case (Cons c cs)
  show ?case
  proof
    assume "str_includes (c # cs) t"
    then consider "startsWith (c # cs) t" | "str_includes cs t" by auto
    then show "\<exists>u v. c # cs = u @ t @ v"
    proof cases
      case 1
      then obtain v where "c # cs = t @ v" by (auto simp: startsWith_iff)
      then have "c # cs = [] @ t @ v" by simp
      then show ?thesis by blast
    next
      case 2
      with Cons.IH obtain u v where "cs = u @ t @ v" by blast
      then have "c # cs = (c # u) @ t @ v" by simp
      then show ?thesis by blast
    qed
  next
    assume "\<exists>u v. c # cs = u @ t @ v"
    then obtain u v where uv: "c # cs = u @ t @ v" by blast
    show "str_includes (c # cs) t"
    proof (cases u)
      case Nil
      with uv have "startsWith (c # cs) t" by (auto simp: startsWith_iff)
      then show ?thesis by simp
    next
      case (Cons x u')
      with uv have "cs = u' @ t @ v" by simp
      with Cons.IH have "str_includes cs t" by blast
      then show ?thesis by simp
    qed
  qed
qed

lemma indexOf_first:
  assumes "s = u @ t @ v" and "\<forall>u' v'. s = u' @ t @ v' \<longrightarrow> length u \<le> length u'"
  shows "indexOf s t = Some (length u)"
  using assms
proof (induction s arbitrary: u)
  case Nil
  then show ?case by simp
next
  case (Cons c cs)
  show ?case
  proof (cases "startsWith (c # cs) t")
    case True
    then obtain v' where "c # cs = [] @ t @ v'" by (auto simp: startsWith_iff)
    with Cons.prems(2) have "length u \<le> length ([] :: string)" by blast
    with True show ?thesis by simp
  next
    case False
    with Cons.prems(1) have "u \<noteq> []" by (auto simp: startsWith_iff)
    then obtain x u0 where u: "u = x # u0" by (cases u) auto
    with Cons.prems(1) have cs: "cs = u0 @ t @ v" by simp
    have "\<forall>u' v'. cs = u' @ t @ v' \<longrightarrow> length u0 \<le> length u'"
    proof (intro allI impI)
      fix u' v' assume "cs = u' @ t @ v'"
      then have "c # cs = (c # u') @ t @ v'" by simp
      with Cons.prems(2) have "length u \<le> length (c # u')" by blast
      with u show "length u0 \<le> length u'" by simp
    qed
    from Cons.IH [OF cs this] False u show ?thesis by simp
  qed
qed

lemma getSubstitution_literal:
  "CHR ''$'' \<notin> set r \<Longrightarrow> getSubstitution m b a r = r"
  by (induction m b a r rule: getSubstitution.induct) auto

lemma replace_first:
  assumes "s = u @ t @ v" and "\<forall>u' v'. s = u' @ t @ v' \<longrightarrow> length u \<le> length u'"
    and "CHR ''$'' \<notin> set r"
  shows "replace s t r = u @ r @ v"
  using indexOf_first [OF assms(1,2)] assms(1,3)
  by (simp add: replace_def getSubstitution_literal)

text \<open>
  Claim C3. When the file can be read and its content does not contain the target,
  \<open>edit_file\<close> returns (it does not throw) the text \<open>Error: Target string not found
  in ...\<close>, and the files are exactly as before: nothing is written.
\<close>

theorem edit_file_target_absent:
  assumes "a ''path'' = JStr p"
    and "contents (fs (resolve projectDir p)) = Inr c"
    and "\<nexists>u v. c = u @ to_string (a ''target'') @ v"
  shows "editFileImpl resolve a projectDir fs =
           (Inr (''Error: Target string not found in '' @ p @ ''. Make sure it matches exactly.''), fs)"
  using assms by (simp add: editFileImpl_def Let_def str_includes_iff)

theorem edit_file_target_absent_witness:
  "editFileImpl resolve_posix
     (args_of [(''path'', JStr ''a.txt''), (''target'', JStr ''xyz''), (''replacement'', JStr ''q'')])
     ''/proj'' (one_file ''/proj/a.txt'' ''hello world'')
   = (Inr ''Error: Target string not found in a.txt. Make sure it matches exactly.'',
      one_file ''/proj/a.txt'' ''hello world'')"
proof -
  let ?a = "args_of [(''path'', JStr ''a.txt''), (''target'', JStr ''xyz''), (''replacement'', JStr ''q'')]"
  have 1: "?a ''path'' = JStr ''a.txt''" by (simp add: args_of_def)
  have 2: "contents (one_file ''/proj/a.txt'' ''hello world'' (resolve_posix ''/proj'' ''a.txt'')) = Inr ''hello world''"
    by (simp add: one_file_def resolve_posix_def)
  have "\<not> str_includes ''hello world'' (to_string (?a ''target''))"
    by (simp add: args_of_def)
  then have 3: "\<nexists>u v. ''hello world'' = u @ to_string (?a ''target'') @ v"
    using str_includes_iff [of "''hello world''" "to_string (?a ''target'')"] by blast
  from edit_file_target_absent [where a = ?a and p = "''a.txt''"
      and fs = "one_file ''/proj/a.txt'' ''hello world''" and resolve = resolve_posix
      and projectDir = "''/proj''" and c = "''hello world''", OF 1 2 3]
  show ?thesis by simp
qed

text \<open>
  Claim C4, as stated, asks that all occurrences be replaced. The file \<open>a-a\<close>, edited
  with target \<open>a\<close> and replacement \<open>b\<close>, becomes \<open>b-a\<close>: \<open>String.replace\<close> with a
  string pattern replaces the first occurrence only. Replacing all would give \<open>b-b\<close>.
\<close>

theorem edit_file_replace_all_counterexample:
  "contents (snd (editFileImpl resolve_posix
       (args_of [(''path'', JStr ''a.txt''), (''target'', JStr ''a''), (''replacement'', JStr ''b'')])
       ''/proj'' (one_file ''/proj/a.txt'' ''a-a'')) ''/proj/a.txt'') = Inr ''b-a'' \<and>
   spec_replace_all ''a-a'' ''a'' ''b'' = ''b-b''"
  by (simp add: editFileImpl_def Let_def args_of_def one_file_def resolve_posix_def replace_def
        spec_replace_all.simps)

text \<open>
  Claim C4, amended. When the file can be read and written and its content contains
  the target, \<open>edit_file\<close> replaces the first occurrence of the target, and only that
  one, and writes the result back: with \<open>u\<close> the text before the first occurrence and
  \<open>v\<close> the text after it, the new content is \<open>u\<close>, the replacement, \<open>v\<close>. (The
  replacement is taken literally when it has no dollar sign.)
\<close>

theorem edit_file_replaces_first:
  assumes "a ''path'' = JStr p"
    and "contents (fs (resolve projectDir p)) = Inr c"
    and "write_error (fs (resolve projectDir p)) = None"
    and "to_string (a ''target'') = t" and "to_string (a ''replacement'') = r"
    and "c = u @ t @ v"
    and "\<forall>u' v'. c = u' @ t @ v' \<longrightarrow> length u \<le> length u'"
    and "CHR ''$'' \<notin> set r"
  shows "editFileImpl resolve a projectDir fs =
           (Inr (''File edited successfully: '' @ resolve projectDir p),
            fs(resolve projectDir p := \<lparr>contents = Inr (u @ r @ v), write_error = None\<rparr>))"
proof -
  have i: "str_includes c t" using assms(6) by (auto simp: str_includes_iff)
  have r: "replace c t r = u @ r @ v" using assms(6,7,8) by (rule replace_first)
  have n: "(fs (resolve projectDir p))\<lparr>contents := Inr (u @ r @ v)\<rparr>
             = \<lparr>contents = Inr (u @ r @ v), write_error = None\<rparr>"
    using assms(3) by (cases "fs (resolve projectDir p)") simp
  show ?thesis
    using assms(1,2,3,4,5) i r by (simp add: editFileImpl_def Let_def n)
qed

theorem edit_file_replaces_first_witness:
  "editFileImpl resolve_posix
     (args_of [(''path'', JStr ''a.txt''), (''target'', JStr ''a''), (''replacement'', JStr ''b'')])
     ''/proj'' (one_file ''/proj/a.txt'' ''a-a'')
   = (Inr ''File edited successfully: /proj/a.txt'',
      (one_file ''/proj/a.txt'' ''a-a'')(''/proj/a.txt'' := \<lparr>contents = Inr ''b-a'', write_error = None\<rparr>))"
proof -
  let ?a = "args_of [(''path'', JStr ''a.txt''), (''target'', JStr ''a''), (''replacement'', JStr ''b'')]"
  let ?fs = "one_file ''/proj/a.txt'' ''a-a''"
  have 1: "?a ''path'' = JStr ''a.txt''" by (simp add: args_of_def)
  have 2: "contents (?fs (resolve_posix ''/proj'' ''a.txt'')) = Inr ''a-a''"
    by (simp add: one_file_def resolve_posix_def)
  have 3: "write_error (?fs (resolve_posix ''/proj'' ''a.txt'')) = None"
    by (simp add: one_file_def resolve_posix_def)
  have 4: "to_string (?a ''target'') = ''a''" by (simp add: args_of_def)
  have 5: "to_string (?a ''replacement'') = ''b''" by (simp add: args_of_def)
  have 6: "''a-a'' = [] @ ''a'' @ ''-a''" by simp
  have 7: "\<forall>u' v'. ''a-a'' = u' @ ''a'' @ v' \<longrightarrow> length ([] :: string) \<le> length u'" by simp
  have 8: "CHR ''$'' \<notin> set ''b''" by simp
  from edit_file_replaces_first [where a = ?a and p = "''a.txt''" and fs = ?fs
      and resolve = resolve_posix and projectDir = "''/proj''" and c = "''a-a''"
      and t = "''a''" and r = "''b''" and u = "[]" and v = "''-a''", OF 1 2 3 4 5 6 7 8]
  show ?thesis
    by (simp add: resolve_posix_def)
qed

section \<open>Properties of list_directory\<close>

lemma is_entry_file_line [simp]: "is_entry (file_line prefix name sz)"
  by (simp add: file_line_def split: option.splits)

lemma take_cons_entries:
  "n < maxEntries \<Longrightarrow> take (maxEntries - n) (x # xs) = x # take (maxEntries - Suc n) xs"
  using Suc_diff_Suc [of n maxEntries] by (metis take_Suc_Cons)

lemma listDir_take:
  "entryCount \<le> maxEntries \<Longrightarrow>
     filter is_entry (fst (listDir lc recursive err entries depth prefix entryCount)) =
       take (maxEntries - entryCount) (filter is_entry (walk_dir lc recursive err entries depth prefix)) \<and>
     snd (listDir lc recursive err entries depth prefix entryCount) =
       entryCount + length (take (maxEntries - entryCount)
                      (filter is_entry (walk_dir lc recursive err entries depth prefix)))"
  and listLoop_take:
  "entryCount \<le> maxEntries \<Longrightarrow>
     filter is_entry (fst (listLoop lc recursive es depth prefix entryCount)) =
       take (maxEntries - entryCount) (filter is_entry (walk_entries lc recursive es depth prefix)) \<and>
     snd (listLoop lc recursive es depth prefix entryCount) =
       entryCount + length (take (maxEntries - entryCount)
                      (filter is_entry (walk_entries lc recursive es depth prefix)))"
proof (induction lc recursive err entries depth prefix entryCount
         and lc recursive es depth prefix entryCount rule: listDir_listLoop.induct)
  case (1 lc recursive err entries depth prefix entryCount)
  show ?case
  proof (cases "depth > (if recursive then 3 else 1) \<or> entryCount \<ge> maxEntries")
    case True
    with "1.prems" show ?thesis
      by (auto simp: listDir.simps walk_dir.simps)
  next
    case False
    show ?thesis
    proof (cases err)
      case (Some msg)
      with False show ?thesis by (simp add: listDir.simps walk_dir.simps)
    next
      case None
      with False "1.IH" [OF False None "1.prems"] show ?thesis
        by (simp add: listDir.simps walk_dir.simps)
    qed
  qed
next
  case (2 lc recursive depth prefix entryCount)
  then show ?case by (simp add: listLoop.simps walk_entries.simps)
next
  case (3 lc recursive entry rest depth prefix entryCount)
  show ?case
  proof (cases "entryCount \<ge> maxEntries")
    case True
    with "3.prems" show ?thesis by (simp add: listLoop.simps)
  next
    case False
    then have lt: "entryCount < maxEntries" by simp
    then have le: "Suc entryCount \<le> maxEntries" by simp
    show ?thesis
    proof (cases "skipped (ent_name entry)")
      case True
      from "3.IH"(1) [OF False True le] False True lt show ?thesis
        by (auto simp: listLoop.simps walk_entries.simps
              take_cons_entries split: prod.splits)
    next
      case nskip: False
      show ?thesis
      proof (cases entry)
        case (FileEnt name sz body)
        from "3.IH"(2) [OF False nskip FileEnt le] False nskip FileEnt lt show ?thesis
          by (auto simp: listLoop.simps walk_entries.simps
                take_cons_entries split: prod.splits)
      next
        case (DirEnt name suberr children)
        obtain sub n1 where s: "(if recursive
                    then listDir lc recursive suberr children (Suc depth) (prefix @ ''  '') (Suc entryCount)
                    else ([], Suc entryCount)) = (sub, n1)"
          by (cases "(if recursive
                    then listDir lc recursive suberr children (Suc depth) (prefix @ ''  '') (Suc entryCount)
                    else ([], Suc entryCount))")
        let ?W = "filter is_entry (if recursive then walk_dir lc recursive suberr children (Suc depth) (prefix @ ''  '') else [])"
        have sub: "filter is_entry sub = take (maxEntries - Suc entryCount) ?W \<and>
                   n1 = Suc entryCount + length (take (maxEntries - Suc entryCount) ?W)"
        proof (cases recursive)
          case True
          from "3.IH"(3) [OF False nskip DirEnt True le] s True show ?thesis by simp
        next
          case False
          with s show ?thesis by auto
        qed
        then have n1: "n1 \<le> maxEntries" using le by auto
        obtain ls n2 where l: "listLoop lc recursive rest depth prefix n1 = (ls, n2)"
          by (cases "listLoop lc recursive rest depth prefix n1")
        from "3.IH"(4) [OF False nskip DirEnt s [symmetric] n1] l
        have rest: "filter is_entry ls = take (maxEntries - n1) (filter is_entry (walk_entries lc recursive rest depth prefix))"
          "n2 = n1 + length (take (maxEntries - n1) (filter is_entry (walk_entries lc recursive rest depth prefix)))"
          by simp_all
        have L: "listLoop lc recursive (entry # rest) depth prefix entryCount =
                   (EntryLine (prefix @ name @ ''/'') # sub @ ls, n2)"
          using False nskip DirEnt s l by (simp add: listLoop.simps)
        have W: "filter is_entry (walk_entries lc recursive (entry # rest) depth prefix) =
                   EntryLine (prefix @ name @ ''/'') # ?W @ filter is_entry (walk_entries lc recursive rest depth prefix)"
          using nskip DirEnt by (simp add: walk_entries.simps)
        have n1': "maxEntries - n1 = (maxEntries - Suc entryCount) - length ?W"
          using sub by auto
        show ?thesis
          using L W sub rest lt n1'
          by (simp add: take_cons_entries)
      qed
    qed
  qed
qed

text \<open>An entry that contributes its own line and nothing else: a file, or an empty directory.\<close>

definition plain_entry :: "dirent \<Rightarrow> bool" where
  "plain_entry e =
     (\<not> skipped (ent_name e) \<and>
      (case e of FileEnt n sz body \<Rightarrow> True | DirEnt n err es \<Rightarrow> err = None \<and> es = []))"

lemma compare_codes_replicate:
  "m \<le> n \<Longrightarrow> compare_codes (replicate m c) (replicate n c) \<le> 0"
proof (induction m arbitrary: n)
  case 0
  then show ?case by (cases n) auto
next
  case (Suc m)
  then obtain k where "n = Suc k" "m \<le> k" by (cases n) auto
  with Suc.IH [of k] show ?case by simp
qed

lemma js_sort_sorted:
  "successively (\<lambda>a b. cmp a b \<le> 0) xs \<Longrightarrow> js_sort cmp xs = xs"
proof (induction xs)
  case Nil
  then show ?case by (simp add: js_sort_def)
next
  case (Cons x xs)
  then have "js_sort cmp xs = xs" by (cases xs) (auto simp: successively_Cons js_sort_def)
  then have "js_sort cmp (x # xs) = insert_sorted cmp x xs" by (simp add: js_sort_def)
  with Cons.prems show ?case by (cases xs) (auto simp: successively_Cons)
qed

lemma skipped_xs_name [simp]: "\<not> skipped (xs_name i)"
  by (simp add: skipped_def SKIP_DIRS_def xs_name_def)

lemma listDir_empty:
  "listDir lc recursive None [] depth prefix entryCount = ([], entryCount)"
  by (simp add: listDir.simps listLoop.simps js_sort_def)

lemma listLoop_plain:
  assumes "plain_entry e" and "entryCount < maxEntries"
  shows "\<exists>l. is_entry l \<and>
           listLoop lc recursive (e # rest) depth prefix entryCount =
             (l # fst (listLoop lc recursive rest depth prefix (Suc entryCount)),
              snd (listLoop lc recursive rest depth prefix (Suc entryCount)))"
proof (cases e)
  case (FileEnt n sz body)
  with assms have "listLoop lc recursive (e # rest) depth prefix entryCount =
             (file_line prefix n sz # fst (listLoop lc recursive rest depth prefix (Suc entryCount)),
              snd (listLoop lc recursive rest depth prefix (Suc entryCount)))"
    by (simp add: listLoop.simps plain_entry_def split: prod.splits)
  then show ?thesis using is_entry_file_line by blast
next
  case (DirEnt n err es)
  with assms have "listLoop lc recursive (e # rest) depth prefix entryCount =
             (EntryLine (prefix @ n @ ''/'') # fst (listLoop lc recursive rest depth prefix (Suc entryCount)),
              snd (listLoop lc recursive rest depth prefix (Suc entryCount)))"
    by (simp add: listLoop.simps plain_entry_def listDir_empty split: prod.splits)
  moreover have "is_entry (EntryLine (prefix @ n @ ''/''))" by simp
  ultimately show ?thesis by blast
qed

lemma listLoop_plains:
  "\<forall>e\<in>set es. plain_entry e \<Longrightarrow> entryCount + length es \<le> maxEntries \<Longrightarrow>
   \<exists>ls. length ls = length es \<and> filter is_entry ls = ls \<and> filter is_capped ls = [] \<and>
        listLoop lc recursive (es @ rest) depth prefix entryCount =
          (ls @ fst (listLoop lc recursive rest depth prefix (entryCount + length es)),
           snd (listLoop lc recursive rest depth prefix (entryCount + length es)))"
proof (induction es arbitrary: entryCount)
  case Nil
  then show ?case by simp
next
  case (Cons e es)
  then have p: "plain_entry e" and c: "entryCount < maxEntries" by auto
  from listLoop_plain [OF p c, of lc recursive "es @ rest" depth prefix] obtain l where
    l: "is_entry l"
       "listLoop lc recursive (e # es @ rest) depth prefix entryCount =
             (l # fst (listLoop lc recursive (es @ rest) depth prefix (Suc entryCount)),
              snd (listLoop lc recursive (es @ rest) depth prefix (Suc entryCount)))"
    by blast
  from Cons.IH [of "Suc entryCount"] Cons.prems obtain ls where
    ls: "length ls = length es" "filter is_entry ls = ls" "filter is_capped ls = []"
        "listLoop lc recursive (es @ rest) depth prefix (Suc entryCount) =
          (ls @ fst (listLoop lc recursive rest depth prefix (Suc entryCount + length es)),
           snd (listLoop lc recursive rest depth prefix (Suc entryCount + length es)))"
    by auto
  have "\<not> is_capped l" using l(1) by (cases l) auto
  with l ls have
    "length (l # ls) = length (e # es) \<and> filter is_entry (l # ls) = l # ls \<and>
     filter is_capped (l # ls) = [] \<and>
     listLoop lc recursive ((e # es) @ rest) depth prefix entryCount =
          ((l # ls) @ fst (listLoop lc recursive rest depth prefix (entryCount + length (e # es))),
           snd (listLoop lc recursive rest depth prefix (entryCount + length (e # es))))"
    by simp
  then show ?case by blast
qed

lemma sorted_files:
  "js_sort (compare_entries compare_codes) (map (\<lambda>i. FileEnt (xs_name i) sz body) [0..<n])
     = map (\<lambda>i. FileEnt (xs_name i) sz body) [0..<n]"
  by (rule js_sort_sorted)
     (simp add: successively_conv_nth compare_entries_def xs_name_def compare_codes_replicate
        del: replicate.simps)

lemma deep_tree_listing:
  "\<exists>ls. length ls = 199 \<and> filter is_entry ls = ls \<and> filter is_capped ls = [] \<and>
     fst (listDir compare_codes True None deep_tree 1 [] 0) =
       EntryLine ''src/'' # ls @
         [CappedLine ''  ... (capped at 200 entries)'', CappedLine ''... (capped at 200 entries)'']"
proof -
  let ?f = "\<lambda>i. FileEnt (xs_name i) (Some 0) (Some [])"
  let ?lc = "compare_codes"
  have top: "js_sort (compare_entries ?lc) deep_tree = deep_tree"
    by (simp add: deep_tree_def js_sort_def compare_entries_def)
  have u: "[0..<200] = [0..<199] @ [199::nat]"
    using upt_Suc_append [of 0 199] by simp
  have split: "map ?f [0..<200] = map ?f [0..<199] @ [?f 199]"
    by (simp only: u map_append list.map)
  have plain: "\<forall>e\<in>set (map ?f [0..<199]). plain_entry e"
    by (auto simp: plain_entry_def)
  from listLoop_plains [OF plain, of "Suc 0" ?lc True "[?f 199]" "Suc (Suc 0)" "''  ''"] obtain ls where
    ls: "length ls = 199" "filter is_entry ls = ls" "filter is_capped ls = []"
        "listLoop ?lc True (map ?f [0..<199] @ [?f 199]) (Suc (Suc 0)) ''  '' (Suc 0) =
          (ls @ fst (listLoop ?lc True [?f 199] (Suc (Suc 0)) ''  '' 200), snd (listLoop ?lc True [?f 199] (Suc (Suc 0)) ''  '' 200))"
    by (auto simp: maxEntries_def)
  have cap: "show_nat 200 = ''200''"
    by (simp add: show_nat.simps char_of_def bit_Suc_0_iff)
  have last: "listLoop ?lc True [?f 199] (Suc (Suc 0)) ''  '' 200 = ([CappedLine ''  ... (capped at 200 entries)''], 200)"
    by (simp add: listLoop.simps maxEntries_def cap)
  have "listDir ?lc True None (map ?f [0..<200]) (Suc (Suc 0)) ''  '' (Suc 0) =
          listLoop ?lc True (map ?f [0..<200]) (Suc (Suc 0)) ''  '' (Suc 0)"
    by (simp add: listDir.simps sorted_files maxEntries_def)
  also have "\<dots> = listLoop ?lc True (map ?f [0..<199] @ [?f 199]) (Suc (Suc 0)) ''  '' (Suc 0)"
    by (simp only: split)
  also have "\<dots> = (ls @ [CappedLine ''  ... (capped at 200 entries)''], 200)"
    by (simp only: ls(4) last fst_conv snd_conv)
  finally have inner: "listDir ?lc True None (map ?f [0..<200]) (Suc (Suc 0)) ''  '' (Suc 0) =
                 (ls @ [CappedLine ''  ... (capped at 200 entries)''], 200)" .
  have outer: "listLoop ?lc True [FileEnt ''z.txt'' (Some 0) (Some [])] (Suc 0) [] 200 =
                 ([CappedLine ''... (capped at 200 entries)''], 200)"
    by (simp add: listLoop.simps maxEntries_def cap)
  have nskip: "\<not> skipped ''src''"
    by (simp add: skipped_def SKIP_DIRS_def)
  have "listDir ?lc True None deep_tree 1 [] 0 = listLoop ?lc True deep_tree 1 [] 0"
    by (simp add: listDir.simps top maxEntries_def)
  also have "\<dots> = (EntryLine ''src/'' # (ls @ [CappedLine ''  ... (capped at 200 entries)'']) @
                       [CappedLine ''... (capped at 200 entries)''], 200)"
    unfolding deep_tree_def
    by (subst listLoop.simps) (simp add: nskip inner outer maxEntries_def)
  finally have "fst (listDir ?lc True None deep_tree 1 [] 0) =
       EntryLine ''src/'' # ls @
         [CappedLine ''  ... (capped at 200 entries)'', CappedLine ''... (capped at 200 entries)'']"
    by simp
  with ls show ?thesis by blast
qed

lemma sorted_dirs:
  "js_sort (compare_entries compare_codes) (map (\<lambda>i. DirEnt (xs_name i) None (ch i)) [0..<n])
     = map (\<lambda>i. DirEnt (xs_name i) None (ch i)) [0..<n]"
  by (rule js_sort_sorted)
     (simp add: successively_conv_nth compare_entries_def xs_name_def compare_codes_replicate
        del: replicate.simps)

lemma wide_tree_listing:
  "\<exists>ls. length ls = 199 \<and> filter is_entry ls = ls \<and> filter is_capped ls = [] \<and>
     fst (listDir compare_codes True None wide_tree 1 [] 0) = ls @ [EntryLine (xs_name 199 @ ''/'')]"
proof -
  let ?g = "\<lambda>i. DirEnt (xs_name i) None
                 (if i = 199 then [FileEnt ''notes.txt'' (Some 12) (Some ''hello'')] else [])"
  let ?lc = "compare_codes"
  have u: "[0..<200] = [0..<199] @ [199::nat]"
    using upt_Suc_append [of 0 199] by simp
  have split: "map ?g [0..<200] = map ?g [0..<199] @ [?g 199]"
    by (simp only: u map_append list.map)
  have plain: "\<forall>e\<in>set (map ?g [0..<199]). plain_entry e"
    by (auto simp: plain_entry_def)
  from listLoop_plains [OF plain, of 0 ?lc True "[?g 199]" "Suc 0" "[]"] obtain ls where
    ls: "length ls = 199" "filter is_entry ls = ls" "filter is_capped ls = []"
        "listLoop ?lc True (map ?g [0..<199] @ [?g 199]) (Suc 0) [] 0 =
          (ls @ fst (listLoop ?lc True [?g 199] (Suc 0) [] 199), snd (listLoop ?lc True [?g 199] (Suc 0) [] 199))"
    by (auto simp: maxEntries_def)
  have cut: "listDir ?lc True None [FileEnt ''notes.txt'' (Some 12) (Some ''hello'')]
               (Suc (Suc 0)) ''  '' 200 = ([], 200)"
    by (simp add: listDir.simps maxEntries_def)
  have last: "listLoop ?lc True [?g 199] (Suc 0) [] 199 = ([EntryLine (xs_name 199 @ ''/'')], 200)"
    by (subst listLoop.simps) (simp add: maxEntries_def cut listLoop.simps)
  have "listDir ?lc True None wide_tree (Suc 0) [] 0 = listLoop ?lc True (map ?g [0..<200]) (Suc 0) [] 0"
    unfolding wide_tree_def by (simp add: listDir.simps sorted_dirs maxEntries_def)
  also have "\<dots> = listLoop ?lc True (map ?g [0..<199] @ [?g 199]) (Suc 0) [] 0"
    by (simp only: split)
  also have "\<dots> = (ls @ [EntryLine (xs_name 199 @ ''/'')], 200)"
    by (simp only: ls(4) last fst_conv snd_conv)
  finally have "fst (listDir ?lc True None wide_tree 1 [] 0) = ls @ [EntryLine (xs_name 199 @ ''/'')]"
    by simp
  with ls show ?thesis by blast
qed

lemma sum_list_ones:
  "\<forall>x\<in>set xs. f x = (1::nat) \<Longrightarrow> sum_list (map f xs) = length xs"
  by (induction xs) auto

lemma count_wide_tree: "sum_list (map count_entries wide_tree) = 201"
proof -
  let ?g = "\<lambda>i. DirEnt (xs_name i) None
                 (if i = 199 then [FileEnt ''notes.txt'' (Some 12) (Some ''hello'')] else [])"
  have u: "[0..<200] = [0..<199] @ [199::nat]"
    using upt_Suc_append [of 0 199] by simp
  have "sum_list (map count_entries (map ?g [0..<199])) = length (map ?g [0..<199])"
    by (rule sum_list_ones) auto
  then show ?thesis
    unfolding wide_tree_def u by simp
qed

lemma count_deep_tree: "sum_list (map count_entries deep_tree) = 202"
proof -
  let ?f = "\<lambda>i. FileEnt (xs_name i) (Some 0) (Some [])"
  have "sum_list (map count_entries (map ?f [0..<200])) = length (map ?f [0..<200])"
    by (rule sum_list_ones) auto
  then show ?thesis by (simp add: deep_tree_def)
qed

text \<open>
  What holds of every listing: its entry lines are the first 200 entry lines of the
  traversal without the counter, and an entry with a name of the deny-list is listed
  once where the loop meets it, marked, with what it contains playing no part.
\<close>

lemma listDir_entries_cap:
  "filter is_entry (fst (listDir lc recursive err entries 1 [] 0)) =
     take 200 (filter is_entry (walk_dir lc recursive err entries 1 []))"
  using listDir_take [of 0 lc recursive err entries 1 "[]"] by (simp add: maxEntries_def)

lemma listLoop_skipped:
  assumes "skipped (ent_name entry)" and "entryCount < 200"
  shows "listLoop lc recursive (entry # rest) depth prefix entryCount =
           (EntryLine (prefix @ ent_name entry @ ''/ [skipped]'')
              # fst (listLoop lc recursive rest depth prefix (Suc entryCount)),
            snd (listLoop lc recursive rest depth prefix (Suc entryCount)))"
  using assms by (simp add: listLoop.simps maxEntries_def split: prod.splits)

text \<open>
  Claim C7 asks of a recursive listing of more than 200 entries that it hold exactly 200
  entries and exactly one capped notice. The notice is pushed by the loop of \<open>listDir\<close>
  when it meets a further entry with the counter at 200; the guard at the entry of
  \<open>listDir\<close> returns without a word when the counter is at 200, and every loop that is
  still running pushes a notice of its own. So the number of notices is not one:

  \<^item> a directory of 200 subdirectories, the last of which holds the file \<open>notes.txt\<close>
    (201 entries), is listed as 200 entries ending with that last subdirectory, with no
    notice: the file is dropped silently;
  \<^item> a directory holding \<open>src\<close> with 200 files, and the file \<open>z.txt\<close> (202 entries), is
    listed as 200 entries with two notices, one from the loop over \<open>src\<close> and one from
    the loop over the directory itself.
\<close>

theorem list_directory_capped_notices:
  "sum_list (map count_entries wide_tree) = 201 \<and>
   length (filter is_entry (fst (listDir compare_codes True None wide_tree 1 [] 0))) = 200 \<and>
   length (filter is_capped (fst (listDir compare_codes True None wide_tree 1 [] 0))) = 0 \<and>
   last (fst (listDir compare_codes True None wide_tree 1 [] 0)) = EntryLine (xs_name 199 @ ''/'') \<and>
   sum_list (map count_entries deep_tree) = 202 \<and>
   length (filter is_entry (fst (listDir compare_codes True None deep_tree 1 [] 0))) = 200 \<and>
   length (filter is_capped (fst (listDir compare_codes True None deep_tree 1 [] 0))) = 2"
proof -
  from wide_tree_listing obtain ws where
    ws: "length ws = 199" "filter is_entry ws = ws" "filter is_capped ws = []"
        "fst (listDir compare_codes True None wide_tree 1 [] 0) = ws @ [EntryLine (xs_name 199 @ ''/'')]"
    by blast
  from deep_tree_listing obtain ds where
    ds: "length ds = 199" "filter is_entry ds = ds" "filter is_capped ds = []"
        "fst (listDir compare_codes True None deep_tree 1 [] 0) =
           EntryLine ''src/'' # ds @
             [CappedLine ''  ... (capped at 200 entries)'', CappedLine ''... (capped at 200 entries)'']"
    by blast
  show ?thesis
    unfolding ws(4) ds(4)
    by (simp add: count_wide_tree count_deep_tree ws(1-3) ds(1-3))
qed

section \<open>Properties of search_files\<close>

text \<open>
  Every event of a trace happens while fewer than \<open>maxResults\<close> matches have been
  recorded: after the match that reaches the cap nothing is read or tested any more.
\<close>

definition stops_at_cap :: "scan_event list \<Rightarrow> bool" where
  "stops_at_cap tr =
     list_all (\<lambda>i. length (filter is_match (take i tr)) < maxResults) [0..<length tr]"

lemma stops_at_cap_iff:
  "stops_at_cap tr \<longleftrightarrow> (\<forall>i<length tr. length (filter is_match (take i tr)) < maxResults)"
  by (auto simp: stops_at_cap_def list_all_iff)

fun match_texts :: "scan_event list \<Rightarrow> string list" where
  "match_texts [] = []"
| "match_texts (Match r # es) = r # match_texts es"
| "match_texts (e # es) = match_texts es"

definition search_inv :: "search_state \<Rightarrow> bool" where
  "search_inv st =
     (results st = match_texts (trace st) \<and> length (results st) \<le> maxResults \<and>
      stops_at_cap (trace st) \<and> [] \<notin> set (results st))"

lemma match_texts_append: "match_texts (xs @ ys) = match_texts xs @ match_texts ys"
  by (induction xs rule: match_texts.induct) auto

lemma length_match_texts: "length (match_texts tr) = length (filter is_match tr)"
  by (induction tr rule: match_texts.induct) auto

lemma stops_at_cap_snoc:
  "stops_at_cap (tr @ [e]) \<longleftrightarrow> stops_at_cap tr \<and> length (filter is_match tr) < maxResults"
proof
  assume h: "stops_at_cap (tr @ [e])"
  have "stops_at_cap tr"
    unfolding stops_at_cap_iff
  proof (intro allI impI)
    fix i assume "i < length tr"
    with h have "length (filter is_match (take i (tr @ [e]))) < maxResults"
      by (simp add: stops_at_cap_iff)
    with \<open>i < length tr\<close> show "length (filter is_match (take i tr)) < maxResults" by simp
  qed
  moreover have "length (filter is_match (take (length tr) (tr @ [e]))) < maxResults"
    using h [unfolded stops_at_cap_iff, rule_format, of "length tr"] by simp
  ultimately show "stops_at_cap tr \<and> length (filter is_match tr) < maxResults" by simp
next
  assume h: "stops_at_cap tr \<and> length (filter is_match tr) < maxResults"
  show "stops_at_cap (tr @ [e])"
    unfolding stops_at_cap_iff
  proof (intro allI impI)
    fix i assume "i < length (tr @ [e])"
    then consider "i < length tr" | "i = length tr" by fastforce
    then show "length (filter is_match (take i (tr @ [e]))) < maxResults"
    proof cases
      case 1
      with h show ?thesis by (simp add: stops_at_cap_iff)
    next
      case 2
      with h show ?thesis by simp
    qed
  qed
qed

lemma inv_event:
  assumes "search_inv st" "length (results st) < maxResults" "\<not> is_match e"
  shows "search_inv (st\<lparr>trace := trace st @ [e]\<rparr>)"
  using assms
  by (cases e) (auto simp: search_inv_def match_texts_append stops_at_cap_snoc
                  length_match_texts [symmetric])

lemma inv_match:
  assumes "search_inv st" "length (results st) < maxResults" "r \<noteq> []"
  shows "search_inv (st\<lparr>results := results st @ [r], trace := trace st @ [Match r]\<rparr>)"
  using assms
  by (auto simp: search_inv_def match_texts_append stops_at_cap_snoc
           length_match_texts [symmetric])

lemma scan_lines_inv:
  "search_inv st \<Longrightarrow> length (results st) < maxResults \<Longrightarrow>
   search_inv (scan_lines pattern relPath filePath ls i st)"
proof (induction ls arbitrary: i st)
  case Nil
  then show ?case by simp
next
  case (Cons l ls)
  let ?st1 = "st\<lparr>trace := trace st @ [LineTest filePath (i + 1)]\<rparr>"
  have i1: "search_inv ?st1" using Cons.prems by (intro inv_event) auto
  have l1: "length (results ?st1) < maxResults" using Cons.prems by simp
  show ?case
  proof (cases "str_includes l pattern")
    case False
    with Cons.IH [OF i1 l1] show ?thesis by (simp add: Let_def)
  next
    case True
    let ?r = "relPath @ '':'' @ show_nat (i + 1) @ '': '' @ trim l"
    let ?st2 = "?st1\<lparr>results := results ?st1 @ [?r], trace := trace ?st1 @ [Match ?r]\<rparr>"
    have i2: "search_inv ?st2" using i1 l1 by (rule inv_match) simp
    show ?thesis
    proof (cases "length (results ?st2) \<ge> maxResults")
      case True
      with \<open>str_includes l pattern\<close> i2 show ?thesis by (simp add: Let_def)
    next
      case False
      then have "length (results ?st2) < maxResults" by simp
      from Cons.IH [OF i2 this] \<open>str_includes l pattern\<close> False show ?thesis
        by (simp add: Let_def)
    qed
  qed
qed

lemma searchInFile_inv:
  assumes "search_inv st" "length (results st) < maxResults"
  shows "search_inv (searchInFile P a projectDir filePath body st)"
proof -
  let ?st1 = "st\<lparr>trace := trace st @ [ReadFile filePath]\<rparr>"
  have i1: "search_inv ?st1" using assms by (intro inv_event) auto
  have l1: "length (results ?st1) < maxResults" using assms by simp
  show ?thesis
    using i1 scan_lines_inv [OF i1 l1]
    by (cases body) (simp_all add: searchInFile_def Let_def)
qed

lemma walk_inv:
  "search_inv st \<Longrightarrow> search_inv (walkDir P a projectDir err entries dir depth st)"
  "search_inv st \<Longrightarrow> search_inv (walkLoop P a projectDir es dir depth st)"
proof (induction P a projectDir err entries dir depth st and P a projectDir es dir depth st
         rule: walkDir_walkLoop.induct)
  case (1 P a projectDir err entries dir depth st)
  show ?case
  proof (cases "depth > 5 \<or> length (results st) \<ge> maxResults")
    case True
    with "1.prems" show ?thesis by (simp add: walkDir.simps)
  next
    case False
    let ?st1 = "st\<lparr>trace := trace st @ [ReadDir dir]\<rparr>"
    have i1: "search_inv ?st1" using "1.prems" False by (intro inv_event) auto
    show ?thesis
    proof (cases err)
      case (Some msg)
      with False i1 show ?thesis by (simp add: walkDir.simps Let_def)
    next
      case None
      from "1.IH" [OF False refl None i1] False None show ?thesis
        by (simp add: walkDir.simps Let_def)
    qed
  qed
next
  case (2 P a projectDir dir depth st)
  then show ?case by (simp add: walkLoop.simps)
next
  case (3 P a projectDir entry rest dir depth st)
  show ?case
  proof (cases "length (results st) \<ge> maxResults")
    case True
    with "3.prems" show ?thesis by (simp add: walkLoop.simps)
  next
    case room: False
    then have lt: "length (results st) < maxResults" by simp
    show ?thesis
    proof (cases "ent_name entry \<in> set search_skip")
      case True
      from "3.IH"(1) [OF room True "3.prems"] room True show ?thesis
        by (simp add: walkLoop.simps)
    next
      case nskip: False
      show ?thesis
      proof (cases entry)
        case (DirEnt name suberr children)
        have "search_inv (walkDir P a projectDir suberr children (path_join P dir (ent_name entry)) (depth + 1) st)"
          using "3.IH"(4) [OF room nskip refl DirEnt "3.prems"] .
        from "3.IH"(5) [OF room nskip refl DirEnt this] room nskip DirEnt show ?thesis
          by (simp add: walkLoop.simps Let_def)
      next
        case (FileEnt name sz body)
        show ?thesis
        proof (cases "passes_filter (a ''file_pattern'') name")
          case None
          with room nskip FileEnt "3.prems" show ?thesis
            by (simp add: walkLoop.simps Let_def)
        next
          case (Some keep)
          show ?thesis
          proof (cases keep)
            case False
            then have k: "keep = False" by simp
            from "3.IH"(3) [OF room nskip refl FileEnt Some k "3.prems"] Some k room nskip FileEnt
            show ?thesis by (simp add: walkLoop.simps Let_def)
          next
            case True
            then have k: "keep = True" by simp
            have "search_inv (searchInFile P a projectDir (path_join P dir (ent_name entry)) body st)"
              using "3.prems" lt by (rule searchInFile_inv)
            from "3.IH"(2) [OF room nskip refl FileEnt Some k this] Some k room nskip FileEnt
            show ?thesis by (simp add: walkLoop.simps Let_def)
          qed
        qed
      qed
    qed
  qed
qed

lemma join_nonempty: "rs \<noteq> [] \<Longrightarrow> [] \<notin> set rs \<Longrightarrow> join sep rs \<noteq> []"
  by (induction sep rs rule: join.induct) auto

lemma search_scan_inv: "search_inv (search_scan P a projectDir dirs)"
proof -
  have "search_inv \<lparr>results = [], trace = []\<rparr>"
    by (simp add: search_inv_def stops_at_cap_iff)
  then show ?thesis
    by (simp add: search_scan_def Let_def walk_inv(1) split: prod.splits)
qed

text \<open>
  Claim C8. A search records at most 30 matches; every read of a directory or a file,
  every test of a line and every recorded match happens while fewer than 30 matches
  have been recorded, so the scan stops with the 30th match; when 30 matches have been
  recorded the output is the matches followed by the capped notice; without a match the
  output is exactly \<open>No matches found.\<close>; the output is never empty.
\<close>

theorem search_files_cap:
  "length (results (search_scan P a projectDir dirs)) \<le> 30 \<and>
   results (search_scan P a projectDir dirs) = match_texts (trace (search_scan P a projectDir dirs)) \<and>
   stops_at_cap (trace (search_scan P a projectDir dirs)) \<and>
   (length (results (search_scan P a projectDir dirs)) = 30 \<longrightarrow>
      search_output (results (search_scan P a projectDir dirs)) =
        join [CHR 0x0A] (results (search_scan P a projectDir dirs))
          @ CHR 0x0A # ''... (capped at 30 results)'') \<and>
   (results (search_scan P a projectDir dirs) = [] \<longrightarrow>
      search_output (results (search_scan P a projectDir dirs)) = ''No matches found.'') \<and>
   search_output (results (search_scan P a projectDir dirs)) \<noteq> [] \<and>
   (is_str (a ''path'') \<or> \<not> truthy (a ''path'') \<longrightarrow>
      searchFilesImpl P a projectDir dirs =
        Inr (search_output (results (search_scan P a projectDir dirs))))"
proof -
  let ?st = "search_scan P a projectDir dirs"
  have inv: "search_inv ?st" by (rule search_scan_inv)
  have cap: "show_nat 30 = ''30''"
    by (simp add: show_nat.simps char_of_def bit_Suc_0_iff)
  from inv have 1: "length (results ?st) \<le> 30"
    and 2: "results ?st = match_texts (trace ?st)" "stops_at_cap (trace ?st)"
    and ne: "[] \<notin> set (results ?st)"
    unfolding search_inv_def maxResults_def by blast+
  have 3: "length (results ?st) = 30 \<longrightarrow>
      search_output (results ?st) = join [CHR 0x0A] (results ?st) @ CHR 0x0A # ''... (capped at 30 results)''"
    by (simp add: search_output_def maxResults_def cap)
  have 4: "results ?st = [] \<longrightarrow> search_output (results ?st) = ''No matches found.''"
    by (simp add: search_output_def)
  have 5: "search_output (results ?st) \<noteq> []"
  proof (cases "results ?st = []")
    case True
    then show ?thesis by (simp add: search_output_def)
  next
    case False
    moreover note ne
    ultimately have "join [CHR 0x0A] (results ?st) \<noteq> []" by (rule join_nonempty)
    with False show ?thesis by (simp add: search_output_def)
  qed
  have 6: "is_str (a ''path'') \<or> \<not> truthy (a ''path'') \<longrightarrow>
      searchFilesImpl P a projectDir dirs = Inr (search_output (results ?st))"
    by (auto simp: searchFilesImpl_def)
  from 1 2 3 4 5 6 show ?thesis by blast
qed

lemma eval_capped_search:
  "length (results (search_scan posix (args_of [(''pattern'', JStr ''x''), (''path'', JStr ''src'')])
      ''/proj'' two_files)) = 30"
  "ReadFile ''/proj/src/b.txt'' \<notin> set (trace (search_scan posix
      (args_of [(''pattern'', JStr ''x''), (''path'', JStr ''src'')]) ''/proj'' two_files))"
  "results (search_scan posix (args_of [(''pattern'', JStr ''zebra''), (''path'', JStr ''src'')])
      ''/proj'' two_files) = []"
  by code_simp+

lemma eval_capped_trace:
  "61 < length (trace (search_scan posix
      (args_of [(''pattern'', JStr ''x''), (''path'', JStr ''src'')]) ''/proj'' two_files))"
  by code_simp

theorem search_files_cap_witness:
  "length (results (search_scan posix (args_of [(''pattern'', JStr ''x''), (''path'', JStr ''src'')])
      ''/proj'' two_files)) = 30 \<and>
   search_output (results (search_scan posix (args_of [(''pattern'', JStr ''x''), (''path'', JStr ''src'')])
      ''/proj'' two_files)) =
     join [CHR 0x0A] (results (search_scan posix (args_of [(''pattern'', JStr ''x''), (''path'', JStr ''src'')])
        ''/proj'' two_files)) @ CHR 0x0A # ''... (capped at 30 results)'' \<and>
   ReadFile ''/proj/src/b.txt'' \<notin> set (trace (search_scan posix
      (args_of [(''pattern'', JStr ''x''), (''path'', JStr ''src'')]) ''/proj'' two_files)) \<and>
   length (filter is_match (take 61 (trace (search_scan posix
      (args_of [(''pattern'', JStr ''x''), (''path'', JStr ''src'')]) ''/proj'' two_files)))) < 30 \<and>
   searchFilesImpl posix (args_of [(''pattern'', JStr ''zebra''), (''path'', JStr ''src'')])
      ''/proj'' two_files = Inr ''No matches found.''"
proof -
  let ?hit = "args_of [(''pattern'', JStr ''x''), (''path'', JStr ''src'')]"
  let ?miss = "args_of [(''pattern'', JStr ''zebra''), (''path'', JStr ''src'')]"
  note hit = search_files_cap [of posix ?hit "''/proj''" two_files]
  note miss = search_files_cap [of posix ?miss "''/proj''" two_files]
  from hit eval_capped_search(1) have 1:
    "search_output (results (search_scan posix ?hit ''/proj'' two_files)) =
       join [CHR 0x0A] (results (search_scan posix ?hit ''/proj'' two_files))
         @ CHR 0x0A # ''... (capped at 30 results)''"
    by blast
  from hit have "stops_at_cap (trace (search_scan posix ?hit ''/proj'' two_files))" by blast
  with eval_capped_trace have 2:
    "length (filter is_match (take 61 (trace (search_scan posix ?hit ''/proj'' two_files)))) < 30"
    by (simp add: stops_at_cap_iff maxResults_def)
  have p: "is_str (?miss ''path'') \<or> \<not> truthy (?miss ''path'')" by (simp add: args_of_def)
  from miss p eval_capped_search(3) have 3:
    "searchFilesImpl posix ?miss ''/proj'' two_files = Inr ''No matches found.''"
    by simp
  from eval_capped_search(1,2) 1 2 3 show ?thesis by blast
qed

end
